theory Spec2Isabelle
  imports Main "HOL-Library.Word" "HOL-Library.Monad_Syntax"
begin

unbundle bit_operations_syntax

section \<open>Arena allocator (arena.c, arena.h)\<close>

text \<open>
  \<^verbatim>\<open>size_t\<close> is a 64-bit unsigned integer; sums of sizes wrap around as in C.
  The chain of pages (\<^verbatim>\<open>head\<close>, \<^verbatim>\<open>next\<close>) is the list \<open>pages\<close>, head first;
  the pointer \<^verbatim>\<open>current\<close> is an index into that list.  A pointer into a page is the
  pair (page index, offset).  \<^verbatim>\<open>malloc\<close> may fail: each call that can reach it takes
  a flag saying whether it succeeds.  A \<^verbatim>\<open>NULL\<close> arena is \<open>None\<close>.
\<close>

type_synonym size_t = "64 word"

definition ARENA_PAGE_SIZE :: size_t where
  "ARENA_PAGE_SIZE = 4096"

definition ARENA_ALIGNMENT :: size_t where
  "ARENA_ALIGNMENT = 8"

record ArenaPage =
  size_pg :: size_t
  used :: size_t

record Arena =
  pages :: "ArenaPage list"
  current :: nat
  page_size :: size_t
  total_allocated :: size_t
  total_pages :: size_t

definition align_up :: "size_t \<Rightarrow> size_t" where
  "align_up sz = (sz + (ARENA_ALIGNMENT - 1)) AND NOT (ARENA_ALIGNMENT - 1)"

definition page_new :: "bool \<Rightarrow> size_t \<Rightarrow> ArenaPage option" where
  "page_new malloc_ok min_size =
     (if \<not> malloc_ok then None else Some \<lparr>size_pg = min_size, used = 0\<rparr>)"

definition arena_create_sized :: "bool \<Rightarrow> bool \<Rightarrow> size_t \<Rightarrow> Arena option" where
  "arena_create_sized malloc_arena_ok malloc_page_ok psz =
     (if \<not> malloc_arena_ok then None
      else case page_new malloc_page_ok psz of
             None \<Rightarrow> None
           | Some page \<Rightarrow>
               Some \<lparr>pages = [page], current = 0, page_size = psz,
                     total_allocated = 0, total_pages = 1\<rparr>)"

definition arena_create :: "bool \<Rightarrow> bool \<Rightarrow> Arena option" where
  "arena_create malloc_arena_ok malloc_page_ok =
     arena_create_sized malloc_arena_ok malloc_page_ok ARENA_PAGE_SIZE"

fun arena_alloc :: "bool \<Rightarrow> Arena option \<Rightarrow> size_t \<Rightarrow> (nat \<times> size_t) option \<times> Arena option" where
  "arena_alloc malloc_ok None sz = (None, None)"
| "arena_alloc malloc_ok (Some arena) sz =
     (if sz = 0 then (None, Some arena)
      else
        let aligned = align_up sz;
            page = pages arena ! current arena
        in if used page + aligned \<le> size_pg page
           then (Some (current arena, used page),
                 Some (arena\<lparr>pages := (pages arena)[current arena := page\<lparr>used := used page + aligned\<rparr>],
                             total_allocated := total_allocated arena + aligned\<rparr>))
           else
             let new_size = (if aligned > page_size arena then aligned else page_size arena)
             in case page_new malloc_ok new_size of
                  None \<Rightarrow> (None, Some arena)
                | Some new_page \<Rightarrow>
                    (Some (Suc (current arena), 0),
                     Some (arena\<lparr>pages := take (Suc (current arena)) (pages arena)
                                          @ [new_page\<lparr>used := aligned\<rparr>]
                                          @ drop (Suc (current arena)) (pages arena),
                                 current := Suc (current arena),
                                 total_pages := total_pages arena + 1,
                                 total_allocated := total_allocated arena + aligned\<rparr>)))"

text \<open>
  \<^verbatim>\<open>arena_reset\<close> returns the arena after the reset together with the pages it handed
  to \<^verbatim>\<open>free\<close>, in the order of the calls.
\<close>

fun arena_reset :: "Arena option \<Rightarrow> Arena option \<times> ArenaPage list" where
  "arena_reset None = (None, [])"
| "arena_reset (Some arena) =
     (case pages arena of
        [] \<Rightarrow> (Some arena, [])
      | head # rest \<Rightarrow>
          (Some (arena\<lparr>pages := [head\<lparr>used := 0\<rparr>], current := 0,
                       total_allocated := 0, total_pages := 1\<rparr>),
           rest))"

fun arena_bytes_used :: "Arena option \<Rightarrow> size_t" where
  "arena_bytes_used None = 0"
| "arena_bytes_used (Some arena) = foldl (\<lambda>total page. total + used page) 0 (pages arena)"

text \<open>
  A sequence of allocation requests: each is the requested size and whether a
  \<^verbatim>\<open>malloc\<close> needed for it succeeds.
\<close>

definition arena_allocs :: "Arena option \<Rightarrow> (size_t \<times> bool) list \<Rightarrow> Arena option" where
  "arena_allocs a reqs = foldl (\<lambda>a (sz, ok). snd (arena_alloc ok a sz)) a reqs"

section \<open>Alias expansion (shell.c)\<close>

text \<open>
  The alias table is a hash table with chained buckets, read only through
  \<^verbatim>\<open>alias_lookup\<close>; it is modelled as the finite map it implements.  C strings are
  character lists; \<^verbatim>\<open>malloc\<close> and \<^verbatim>\<open>strdup\<close> are taken to succeed.
\<close>

type_synonym AliasTable = "string \<rightharpoonup> string"

definition isspace :: "char \<Rightarrow> bool" where
  "isspace c = (c = CHR '' '' \<or> c = CHR 0x09 \<or> c = CHR 0x0A \<or> c = CHR 0x0B
                \<or> c = CHR 0x0C \<or> c = CHR 0x0D)"

definition alias_lookup :: "AliasTable option \<Rightarrow> string \<Rightarrow> string option" where
  "alias_lookup tbl name = (case tbl of None \<Rightarrow> None | Some t \<Rightarrow> t name)"

text \<open>
  The loop of \<^verbatim>\<open>expand_aliases\<close>.  Besides the current line it carries a log of the
  replacement texts substituted so far, oldest first; the log is not part of the C state
  and is there to count substitutions.
\<close>

function expand_aliases_loop ::
  "AliasTable option \<Rightarrow> nat \<Rightarrow> string \<Rightarrow> string list \<Rightarrow> string \<times> string list" where
  "expand_aliases_loop tbl depth cur log =
     (if depth < 10 then
        let leading = takeWhile isspace cur;
            p = dropWhile isspace cur
        in if p = [] then (cur, log)
           else
             let word = takeWhile (\<lambda>c. \<not> isspace c) p;
                 rest = dropWhile (\<lambda>c. \<not> isspace c) p
             in if length word \<ge> 256 then (cur, log)
                else case alias_lookup tbl word of
                       None \<Rightarrow> (cur, log)
                     | Some replacement \<Rightarrow>
                         let newline = leading @ replacement @ rest
                         in if replacement = [] \<or> last replacement \<noteq> CHR '' ''
                            then (newline, log @ [replacement])
                            else expand_aliases_loop tbl (depth + 1) newline (log @ [replacement])
      else (cur, log))"
  by pat_completeness auto
termination
  by (relation "measure (\<lambda>(tbl, depth, cur, log). 10 - depth)") auto

definition expand_aliases_log :: "AliasTable option \<Rightarrow> string \<Rightarrow> string \<times> string list" where
  "expand_aliases_log tbl cmdline =
     (if tbl = None \<or> cmdline = [] then (cmdline, [])
      else expand_aliases_loop tbl 0 cmdline [])"

definition expand_aliases :: "AliasTable option \<Rightarrow> string \<Rightarrow> string" where
  "expand_aliases tbl cmdline = fst (expand_aliases_log tbl cmdline)"

section \<open>Lexer (lexer.c, lexer.h)\<close>

text \<open>
  The input is a C string: a character list without the terminating NUL, which
  \<^verbatim>\<open>lex_cur\<close> and \<^verbatim>\<open>lex_peek\<close> return past the end, as the C code does.  Positions and
  lengths are natural numbers, line and column numbers and file descriptors are
  integers.  A \<^verbatim>\<open>char *\<close> that may be \<^verbatim>\<open>NULL\<close> is a \<open>string option\<close>.  Allocation
  (\<^verbatim>\<open>sstr_new\<close>, \<^verbatim>\<open>arena_strdup\<close>, \<^verbatim>\<open>toklist_add\<close>) is taken to succeed; a
  \<^verbatim>\<open>SafeString\<close> buffer is the list of characters appended to it.
\<close>

datatype TokenType =
    TOK_WORD | TOK_PIPE | TOK_AND | TOK_OR | TOK_SEMI | TOK_AMP
  | TOK_REDIR_IN | TOK_REDIR_OUT | TOK_REDIR_APPEND | TOK_REDIR_HEREDOC | TOK_REDIR_DUP
  | TOK_LPAREN | TOK_RPAREN | TOK_NEWLINE
  | TOK_IF | TOK_THEN | TOK_ELIF | TOK_ELSE | TOK_FI | TOK_WHILE | TOK_FOR | TOK_DO
  | TOK_DONE | TOK_IN | TOK_FUNCTION | TOK_RETURN | TOK_LOCAL
  | TOK_LBRACE | TOK_RBRACE | TOK_BANG | TOK_EOF

record Token =
  tk_type :: TokenType
  tk_value :: "string option"
  redir_fd :: int
  tk_line :: int
  tk_col :: int

record Lexer =
  input :: string
  pos :: nat
  len :: nat
  line :: int
  col :: int
  error :: "string option"

text \<open>Decimal printing, for the \<^verbatim>\<open>%d\<close> of \<^verbatim>\<open>snprintf\<close>.\<close>

function show_nat :: "nat \<Rightarrow> string" where
  "show_nat n = (if n < 10 then [char_of (48 + n)]
                 else show_nat (n div 10) @ [char_of (48 + n mod 10)])"
  by pat_completeness auto
termination
  by (relation "measure id") auto

definition show_int :: "int \<Rightarrow> string" where
  "show_int i = (if i < 0 then CHR ''-'' # show_nat (nat (- i)) else show_nat (nat i))"

definition lex_cur :: "Lexer \<Rightarrow> char" where
  "lex_cur lx = (if pos lx \<ge> len lx then CHR 0x00 else input lx ! pos lx)"

definition lex_peek :: "Lexer \<Rightarrow> nat \<Rightarrow> char" where
  "lex_peek lx n = (let idx = pos lx + n
                     in if idx \<ge> len lx then CHR 0x00 else input lx ! idx)"

definition lex_advance :: "Lexer \<Rightarrow> Lexer" where
  "lex_advance lx =
     (if pos lx < len lx then
        (if input lx ! pos lx = CHR 0x0A
         then lx\<lparr>line := line lx + 1, col := 1, pos := pos lx + 1\<rparr>
         else lx\<lparr>col := col lx + 1, pos := pos lx + 1\<rparr>)
      else lx)"

definition make_token :: "TokenType \<Rightarrow> string option \<Rightarrow> int \<Rightarrow> int \<Rightarrow> Token" where
  "make_token ty v ln cl =
     \<lparr>tk_type = ty, tk_value = v, redir_fd = - 1, tk_line = ln, tk_col = cl\<rparr>"

definition lex_error :: "Lexer \<Rightarrow> string \<Rightarrow> Lexer" where
  "lex_error lx msg =
     (if error lx = None
      then lx\<lparr>error := Some (take 255 (''lexer error at '' @ show_int (line lx) @ '':''
                                          @ show_int (col lx) @ '': '' @ msg))\<rparr>
      else lx)"

lemma lex_advance_fields [simp]:
  "input (lex_advance lx) = input lx"
  "len (lex_advance lx) = len lx"
  "error (lex_advance lx) = error lx"
  "pos (lex_advance lx) = (if pos lx < len lx then Suc (pos lx) else pos lx)"
  by (simp_all add: lex_advance_def)

lemma lex_error_fields [simp]:
  "input (lex_error lx msg) = input lx"
  "len (lex_error lx msg) = len lx"
  "pos (lex_error lx msg) = pos lx"
  "error (lex_error lx msg) \<noteq> None"
  by (simp_all add: lex_error_def)

function skip_whitespace :: "Lexer \<Rightarrow> Lexer" where
  "skip_whitespace lx =
     (if pos lx < len lx then
        (let c = input lx ! pos lx
         in if c = CHR '' '' \<or> c = CHR 0x09 then skip_whitespace (lex_advance lx) else lx)
      else lx)"
  by pat_completeness auto
termination
  by (relation "measure (\<lambda>lx. len lx - pos lx)") auto

function skip_comment :: "Lexer \<Rightarrow> Lexer" where
  "skip_comment lx =
     (if pos lx < len lx \<and> input lx ! pos lx \<noteq> CHR 0x0A
      then skip_comment (lex_advance lx) else lx)"
  by pat_completeness auto
termination
  by (relation "measure (\<lambda>lx. len lx - pos lx)") auto

declare skip_whitespace.simps [simp del] skip_comment.simps [simp del]

subsection \<open>Keyword table\<close>

definition keyword_table :: "(string \<times> TokenType) list" where
  "keyword_table =
     [(''if'', TOK_IF), (''then'', TOK_THEN), (''elif'', TOK_ELIF), (''else'', TOK_ELSE),
      (''fi'', TOK_FI), (''while'', TOK_WHILE), (''for'', TOK_FOR), (''do'', TOK_DO),
      (''done'', TOK_DONE), (''in'', TOK_IN), (''function'', TOK_FUNCTION),
      (''return'', TOK_RETURN), (''local'', TOK_LOCAL)]"

fun check_keyword_from :: "(string \<times> TokenType) list \<Rightarrow> string \<Rightarrow> TokenType" where
  "check_keyword_from [] word = TOK_WORD"
| "check_keyword_from ((name, ty) # kws) word =
     (if word = name then ty else check_keyword_from kws word)"

definition check_keyword :: "string \<Rightarrow> TokenType" where
  "check_keyword word = check_keyword_from keyword_table word"

subsection \<open>Word building\<close>

text \<open>The inner loop of a single-quoted section: up to the closing quote or the end.\<close>

function single_quoted :: "Lexer \<Rightarrow> string \<Rightarrow> Lexer \<times> string" where
  "single_quoted lx buf =
     (if pos lx < len lx \<and> lex_cur lx \<noteq> CHR 0x27
      then single_quoted (lex_advance lx) (buf @ [lex_cur lx])
      else (lx, buf))"
  by pat_completeness auto
termination
  by (relation "measure (\<lambda>(lx, buf). len lx - pos lx)") auto

text \<open>The inner loop of a double-quoted section.\<close>

function double_quoted :: "Lexer \<Rightarrow> string \<Rightarrow> Lexer \<times> string" where
  "double_quoted lx buf =
     (if pos lx < len lx \<and> lex_cur lx \<noteq> CHR 0x22 then
        (let dc = lex_cur lx
         in if dc = CHR 0x5C then
              (let next = lex_peek lx 1
               in if next = CHR ''$'' \<or> next = CHR 0x60 \<or> next = CHR 0x22 \<or>
                     next = CHR 0x5C \<or> next = CHR 0x0A
                  then (if next = CHR 0x0A
                        then double_quoted (lex_advance (lex_advance lx)) buf
                        else double_quoted (lex_advance (lex_advance lx)) (buf @ [next]))
                  else double_quoted (lex_advance lx) (buf @ [CHR 0x5C]))
            else double_quoted (lex_advance lx) (buf @ [dc]))
      else (lx, buf))"
  by pat_completeness auto
termination
  by (relation "measure (\<lambda>(lx, buf). len lx - pos lx)") auto

declare single_quoted.simps [simp del] double_quoted.simps [simp del]

lemma single_quoted_fields:
  "single_quoted lx buf = (lx', buf') \<Longrightarrow>
     input lx' = input lx \<and> len lx' = len lx \<and> pos lx \<le> pos lx' \<and> error lx' = error lx"
proof (induction lx buf arbitrary: lx' buf' rule: single_quoted.induct)
  case (1 lx buf)
  show ?case
  proof (cases "pos lx < len lx \<and> lex_cur lx \<noteq> CHR 0x27")
    case True
    then have "single_quoted (lex_advance lx) (buf @ [lex_cur lx]) = (lx', buf')"
      using "1.prems" by (subst (asm) single_quoted.simps) simp
    from "1.IH"[OF True this] True show ?thesis by simp
  next
    case False
    then show ?thesis using "1.prems" by (subst (asm) single_quoted.simps) auto
  qed
qed

lemma double_quoted_fields:
  "double_quoted lx buf = (lx', buf') \<Longrightarrow>
     input lx' = input lx \<and> len lx' = len lx \<and> pos lx \<le> pos lx' \<and> error lx' = error lx"
proof (induction lx buf arbitrary: lx' buf' rule: double_quoted.induct)
  case (1 lx buf)
  let ?next = "lex_peek lx 1"
  let ?esc = "?next = CHR ''$'' \<or> ?next = CHR 0x60 \<or> ?next = CHR 0x22 \<or>
              ?next = CHR 0x5C \<or> ?next = CHR 0x0A"
  note eq = "1.prems"[unfolded double_quoted.simps[of lx buf] Let_def]
  show ?case
  proof (cases "pos lx < len lx \<and> lex_cur lx \<noteq> CHR 0x22")
    case False
    then show ?thesis using eq by auto
  next
    case True
    consider (nl) "lex_cur lx = CHR 0x5C" "?esc" "?next = CHR 0x0A"
      | (esc) "lex_cur lx = CHR 0x5C" "?esc" "?next \<noteq> CHR 0x0A"
      | (lit) "lex_cur lx = CHR 0x5C" "\<not> ?esc"
      | (reg) "lex_cur lx \<noteq> CHR 0x5C"
      by blast
    then show ?thesis
    proof cases
      case nl
      then have rec: "double_quoted (lex_advance (lex_advance lx)) buf = (lx', buf')"
        using eq True by simp
      from "1.IH"(1)[OF True refl nl(1) refl nl(2) nl(3) rec] True show ?thesis
        by (simp split: if_splits)
    next
      case esc
      then have rec: "double_quoted (lex_advance (lex_advance lx)) (buf @ [?next]) = (lx', buf')"
        using eq True by simp
      from "1.IH"(2)[OF True refl esc(1) refl esc(2) esc(3) rec] True show ?thesis
        by (simp split: if_splits)
    next
      case lit
      then have rec: "double_quoted (lex_advance lx) (buf @ [CHR 0x5C]) = (lx', buf')"
        using eq True by simp
      from "1.IH"(3)[OF True refl lit(1) refl lit(2) rec] True show ?thesis
        by simp
    next
      case reg
      then have rec: "double_quoted (lex_advance lx) (buf @ [lex_cur lx]) = (lx', buf')"
        using eq True by simp
      from "1.IH"(4)[OF True refl reg rec] True show ?thesis
        by simp
    qed
  qed
qed

definition is_word_break :: "char \<Rightarrow> bool" where
  "is_word_break c =
     (c = CHR '' '' \<or> c = CHR 0x09 \<or> c = CHR 0x0A \<or>
      c = CHR ''|'' \<or> c = CHR ''&'' \<or> c = CHR '';'' \<or>
      c = CHR ''>'' \<or> c = CHR ''<'' \<or> c = CHR ''('' \<or> c = CHR '')'' \<or>
      c = CHR ''{'' \<or> c = CHR ''}'' \<or> c = CHR ''#'')"

text \<open>The main loop of \<^verbatim>\<open>build_word\<close>; \<^verbatim>\<open>break\<close> returns, \<^verbatim>\<open>continue\<close> recurses.\<close>

function build_word_loop :: "Lexer \<Rightarrow> string \<Rightarrow> Lexer \<times> string" where
  "build_word_loop lx buf =
     (if pos lx < len lx then
        (let c = lex_cur lx
         in if c = CHR 0x27 then
              (case single_quoted (lex_advance lx) buf of
                 (lx1, buf1) \<Rightarrow>
                   if pos lx1 \<ge> len lx1
                   then (lex_error lx1 ''unterminated single quote'', buf1)
                   else build_word_loop (lex_advance lx1) buf1)
            else if c = CHR 0x22 then
              (case double_quoted (lex_advance lx) buf of
                 (lx1, buf1) \<Rightarrow>
                   if pos lx1 \<ge> len lx1
                   then (lex_error lx1 ''unterminated double quote'', buf1)
                   else build_word_loop (lex_advance lx1) buf1)
            else if c = CHR 0x5C then
              (let next = lex_peek lx 1
               in if next = CHR 0x0A then build_word_loop (lex_advance (lex_advance lx)) buf
                  else if next = CHR 0x00 then (lex_advance lx, buf @ [CHR 0x5C])
                  else build_word_loop (lex_advance (lex_advance lx))
                         (buf @ [lex_cur (lex_advance lx)]))
            else if is_word_break c then (lx, buf)
            else build_word_loop (lex_advance lx) (buf @ [c]))
      else (lx, buf))"
  by pat_completeness auto
termination
proof (relation "measure (\<lambda>(lx, buf). len lx - pos lx)", goal_cases)
  case 1
  show ?case by simp
next
  case (2 lx buf x xa y)
  from single_quoted_fields[OF 2(4)[symmetric]] 2 show ?case by auto
next
  case (3 lx buf x xa y)
  from double_quoted_fields[OF 3(5)[symmetric]] 3 show ?case by auto
next
  case 4
  then show ?case by auto
next
  case 5
  then show ?case by auto
next
  case 6
  then show ?case by auto
qed

declare build_word_loop.simps [simp del]

definition build_word :: "Lexer \<Rightarrow> Token \<times> Lexer" where
  "build_word lx =
     (let start_line = line lx;
          start_col = col lx
      in case build_word_loop lx [] of
           (lx1, buf) \<Rightarrow> (make_token (check_keyword buf) (Some buf) start_line start_col, lx1))"


subsection \<open>The tokenizer\<close>

definition isdigit :: "char \<Rightarrow> bool" where
  "isdigit c = (48 \<le> (of_char c :: nat) \<and> (of_char c :: nat) \<le> 57)"

text \<open>The target of \<^verbatim>\<open>N>&\<close>: scanned up to white space, \<^verbatim>\<open>|\<close>, \<^verbatim>\<open>&\<close>, \<^verbatim>\<open>;\<close> or a newline.\<close>

function dup_target :: "Lexer \<Rightarrow> string \<Rightarrow> Lexer \<times> string" where
  "dup_target lx dup_val =
     (if pos lx < len lx \<and> \<not> isspace (lex_cur lx) \<and>
         lex_cur lx \<noteq> CHR ''|'' \<and> lex_cur lx \<noteq> CHR ''&'' \<and>
         lex_cur lx \<noteq> CHR '';'' \<and> lex_cur lx \<noteq> CHR 0x0A
      then dup_target (lex_advance lx) (dup_val @ [lex_cur lx])
      else (lx, dup_val))"
  by pat_completeness auto
termination
  by (relation "measure (\<lambda>(lx, dup_val). len lx - pos lx)") auto

declare dup_target.simps [simp del]

text \<open>
  The branch of \<^verbatim>\<open>lexer_next\<close> for a digit followed by \<^verbatim>\<open><\<close> or \<^verbatim>\<open>>\<close>
  (``Fd-prefixed redirections'' in the source); \<open>c\<close> is the digit.
\<close>

definition lexer_next_fd_redir :: "Lexer \<Rightarrow> int \<Rightarrow> char \<Rightarrow> Token \<times> Lexer" where
  "lexer_next_fd_redir lx0 tok_line c =
     (let fd = int (of_char c) - 48;
          lx = lex_advance lx0;
          tok_col = col lx;
          op = lex_cur lx
      in case
           (if op = CHR ''>'' then
              (if lex_peek lx 1 = CHR ''>'' then
                 (make_token TOK_REDIR_APPEND (Some ''>>'') tok_line tok_col,
                  lex_advance (lex_advance lx))
               else if lex_peek lx 1 = CHR ''&'' then
                 (case dup_target (lex_advance (lex_advance lx)) [] of
                    (lx1, dup_val) \<Rightarrow>
                      (make_token TOK_REDIR_DUP (Some dup_val) tok_line tok_col, lx1))
               else
                 (make_token TOK_REDIR_OUT (Some ''>'') tok_line tok_col, lex_advance lx))
            else
              (if lex_peek lx 1 = CHR ''<'' then
                 (make_token TOK_REDIR_HEREDOC (Some ''<<'') tok_line tok_col,
                  lex_advance (lex_advance lx))
               else
                 (make_token TOK_REDIR_IN (Some ''<'') tok_line tok_col, lex_advance lx)))
         of (tok, lx') \<Rightarrow> (tok\<lparr>redir_fd := fd\<rparr>, lx'))"

text \<open>
  The operator branches of \<^verbatim>\<open>lexer_next\<close> (``Multi-character operators'' and
  ``Single-character operators''): \<open>None\<close> when the current character starts a word.
\<close>

definition lexer_next_operator :: "Lexer \<Rightarrow> int \<Rightarrow> int \<Rightarrow> (Token \<times> Lexer) option" where
  "lexer_next_operator lx tok_line tok_col =
     (let c = lex_cur lx;
          next = lex_peek lx 1
      in if c = CHR ''|'' \<and> next = CHR ''|'' then
           Some (make_token TOK_OR (Some ''||'') tok_line tok_col, lex_advance (lex_advance lx))
         else if c = CHR ''&'' \<and> next = CHR ''&'' then
           Some (make_token TOK_AND (Some ''&&'') tok_line tok_col, lex_advance (lex_advance lx))
         else if c = CHR ''>'' \<and> next = CHR ''>'' then
           Some (make_token TOK_REDIR_APPEND (Some ''>>'') tok_line tok_col,
                 lex_advance (lex_advance lx))
         else if c = CHR ''<'' \<and> next = CHR ''<'' then
           Some (make_token TOK_REDIR_HEREDOC (Some ''<<'') tok_line tok_col,
                 lex_advance (lex_advance lx))
         else if c = CHR ''|'' then
           Some (make_token TOK_PIPE (Some ''|'') tok_line tok_col, lex_advance lx)
         else if c = CHR ''&'' then
           Some (make_token TOK_AMP (Some ''&'') tok_line tok_col, lex_advance lx)
         else if c = CHR '';'' then
           Some (make_token TOK_SEMI (Some '';'') tok_line tok_col, lex_advance lx)
         else if c = CHR ''>'' then
           Some (make_token TOK_REDIR_OUT (Some ''>'') tok_line tok_col, lex_advance lx)
         else if c = CHR ''<'' then
           Some (make_token TOK_REDIR_IN (Some ''<'') tok_line tok_col, lex_advance lx)
         else if c = CHR ''('' then
           Some (make_token TOK_LPAREN (Some ''('') tok_line tok_col, lex_advance lx)
         else if c = CHR '')'' then
           Some (make_token TOK_RPAREN (Some '')'') tok_line tok_col, lex_advance lx)
         else if c = CHR ''{'' then
           Some (make_token TOK_LBRACE (Some ''{'') tok_line tok_col, lex_advance lx)
         else if c = CHR ''}'' then
           Some (make_token TOK_RBRACE (Some ''}'') tok_line tok_col, lex_advance lx)
         else if c = CHR ''!'' then
           Some (make_token TOK_BANG (Some ''!'') tok_line tok_col, lex_advance lx)
         else None)"

definition lexer_init :: "string option \<Rightarrow> Lexer" where
  "lexer_init inp =
     \<lparr>input = (case inp of None \<Rightarrow> [] | Some i \<Rightarrow> i), pos = 0,
      len = (case inp of None \<Rightarrow> 0 | Some i \<Rightarrow> length i),
      line = 1, col = 1, error = None\<rparr>"

lemma skip_whitespace_fields:
  "input (skip_whitespace lx) = input lx \<and> len (skip_whitespace lx) = len lx \<and>
   pos lx \<le> pos (skip_whitespace lx) \<and> error (skip_whitespace lx) = error lx"
proof (induction lx rule: skip_whitespace.induct)
  case (1 lx)
  show ?case
  proof (cases "pos lx < len lx \<and> (input lx ! pos lx = CHR '' '' \<or> input lx ! pos lx = CHR 0x09)")
    case True
    then have "skip_whitespace lx = skip_whitespace (lex_advance lx)"
      by (subst skip_whitespace.simps) simp
    with "1.IH"[OF _ refl] True show ?thesis by auto
  next
    case False
    then have "skip_whitespace lx = lx"
      by (subst skip_whitespace.simps) auto
    then show ?thesis by simp
  qed
qed

lemma skip_comment_fields:
  "input (skip_comment lx) = input lx \<and> len (skip_comment lx) = len lx \<and>
   pos lx \<le> pos (skip_comment lx) \<and> error (skip_comment lx) = error lx \<and>
   (pos lx < len lx \<and> input lx ! pos lx \<noteq> CHR 0x0A \<longrightarrow> pos lx < pos (skip_comment lx))"
proof (induction lx rule: skip_comment.induct)
  case (1 lx)
  show ?case
  proof (cases "pos lx < len lx \<and> input lx ! pos lx \<noteq> CHR 0x0A")
    case True
    then have "skip_comment lx = skip_comment (lex_advance lx)"
      by (subst skip_comment.simps) simp
    with "1.IH" True show ?thesis by auto
  next
    case False
    then have "skip_comment lx = lx"
      by (subst skip_comment.simps) auto
    then show ?thesis using False by simp
  qed
qed

function lexer_next :: "Lexer \<Rightarrow> Token \<times> Lexer" where
  "lexer_next lx0 =
     (let lx = skip_whitespace lx0;
          tok_line = line lx;
          tok_col = col lx
      in if pos lx \<ge> len lx then (make_token TOK_EOF None tok_line tok_col, lx)
         else
           let c = lex_cur lx
           in if c = CHR ''#'' then lexer_next (skip_comment lx)
              else if c = CHR 0x0A then
                (make_token TOK_NEWLINE (Some [CHR 0x0A]) tok_line tok_col, lex_advance lx)
              else if isdigit c \<and> (lex_peek lx 1 = CHR ''>'' \<or> lex_peek lx 1 = CHR ''<'') then
                lexer_next_fd_redir lx tok_line c
              else case lexer_next_operator lx tok_line tok_col of
                     Some r \<Rightarrow> r
                   | None \<Rightarrow> build_word lx)"
  by pat_completeness auto
termination
proof (relation "measure (\<lambda>lx. len lx - pos lx)", goal_cases)
  case 1
  show ?case by simp
next
  case (2 lx0 lx tok_line tok_col c)
  have "pos lx < pos (skip_comment lx)"
    using 2 skip_comment_fields[of lx] by (auto simp: lex_cur_def split: if_splits)
  moreover have "pos lx0 \<le> pos lx" "len lx = len lx0"
    using 2 skip_whitespace_fields[of lx0] by auto
  moreover have "len (skip_comment lx) = len lx"
    using skip_comment_fields[of lx] by simp
  ultimately show ?case using 2 by auto
qed

declare lexer_next.simps [simp del]

lemma dup_target_fields:
  "dup_target lx v = (lx', v') \<Longrightarrow>
     input lx' = input lx \<and> len lx' = len lx \<and> pos lx \<le> pos lx' \<and> error lx' = error lx"
proof (induction lx v arbitrary: lx' v' rule: dup_target.induct)
  case (1 lx v)
  let ?go = "pos lx < len lx \<and> \<not> isspace (lex_cur lx) \<and>
         lex_cur lx \<noteq> CHR ''|'' \<and> lex_cur lx \<noteq> CHR ''&'' \<and>
         lex_cur lx \<noteq> CHR '';'' \<and> lex_cur lx \<noteq> CHR 0x0A"
  show ?case
  proof (cases ?go)
    case True
    then have "dup_target (lex_advance lx) (v @ [lex_cur lx]) = (lx', v')"
      using "1.prems" by (subst (asm) dup_target.simps) simp
    from "1.IH"[OF True this] True show ?thesis by simp
  next
    case False
    then show ?thesis using "1.prems" by (subst (asm) dup_target.simps) auto
  qed
qed

lemma build_word_loop_fields:
  "build_word_loop lx buf = (lx', buf') \<Longrightarrow>
     input lx' = input lx \<and> len lx' = len lx \<and> pos lx \<le> pos lx'"
proof (induction lx buf arbitrary: lx' buf' rule: build_word_loop.induct)
  case (1 lx buf)
  note eq = "1.prems"[unfolded build_word_loop.simps[of lx buf] Let_def]
  show ?case
  proof (cases "pos lx < len lx")
    case False
    then show ?thesis using eq by auto
  next
    case True
    let ?c = "lex_cur lx"
    let ?next = "lex_peek lx 1"
    consider (sq) "?c = CHR 0x27"
      | (dq) "?c \<noteq> CHR 0x27" "?c = CHR 0x22"
      | (bs_nl) "?c \<noteq> CHR 0x27" "?c \<noteq> CHR 0x22" "?c = CHR 0x5C" "?next = CHR 0x0A"
      | (bs_end) "?c \<noteq> CHR 0x27" "?c \<noteq> CHR 0x22" "?c = CHR 0x5C" "?next \<noteq> CHR 0x0A" "?next = CHR 0x00"
      | (bs) "?c \<noteq> CHR 0x27" "?c \<noteq> CHR 0x22" "?c = CHR 0x5C" "?next \<noteq> CHR 0x0A" "?next \<noteq> CHR 0x00"
      | (brk) "?c \<noteq> CHR 0x27" "?c \<noteq> CHR 0x22" "?c \<noteq> CHR 0x5C" "is_word_break ?c"
      | (reg) "?c \<noteq> CHR 0x27" "?c \<noteq> CHR 0x22" "?c \<noteq> CHR 0x5C" "\<not> is_word_break ?c"
      by blast
    then show ?thesis
    proof cases
      case sq
      obtain lx1 buf1 where q: "single_quoted (lex_advance lx) buf = (lx1, buf1)"
        by (cases "single_quoted (lex_advance lx) buf")
      note f = single_quoted_fields[OF q]
      show ?thesis
      proof (cases "pos lx1 \<ge> len lx1")
        case True
        then have "lx' = lex_error lx1 ''unterminated single quote''"
          using eq \<open>pos lx < len lx\<close> sq q by simp
        then show ?thesis using f \<open>pos lx < len lx\<close> by simp
      next
        case False
        then have rec: "build_word_loop (lex_advance lx1) buf1 = (lx', buf')"
          using eq True sq q by simp
        from "1.IH"(1)[OF True refl sq q[symmetric] False rec] f True False
        show ?thesis by simp
      qed
    next
      case dq
      obtain lx1 buf1 where q: "double_quoted (lex_advance lx) buf = (lx1, buf1)"
        by (cases "double_quoted (lex_advance lx) buf")
      note f = double_quoted_fields[OF q]
      show ?thesis
      proof (cases "pos lx1 \<ge> len lx1")
        case True
        then have "lx' = lex_error lx1 ''unterminated double quote''"
          using eq \<open>pos lx < len lx\<close> dq q by simp
        then show ?thesis using f \<open>pos lx < len lx\<close> by simp
      next
        case False
        then have rec: "build_word_loop (lex_advance lx1) buf1 = (lx', buf')"
          using eq True dq q by simp
        from "1.IH"(2)[OF True refl dq(1) dq(2) q[symmetric] False rec] f True False
        show ?thesis by simp
      qed
    next
      case bs_nl
      then have rec: "build_word_loop (lex_advance (lex_advance lx)) buf = (lx', buf')"
        using eq True by simp
      from "1.IH"(3)[OF True refl bs_nl(1) bs_nl(2) bs_nl(3) refl bs_nl(4) rec] True
      show ?thesis by (simp split: if_splits)
    next
      case bs_end
      then have "lx' = lex_advance lx" using eq True by simp
      then show ?thesis using True by simp
    next
      case bs
      then have rec: "build_word_loop (lex_advance (lex_advance lx))
                        (buf @ [lex_cur (lex_advance lx)]) = (lx', buf')"
        using eq True by simp
      from "1.IH"(4)[OF True refl bs(1) bs(2) bs(3) refl bs(4) bs(5) rec] True
      show ?thesis by (simp split: if_splits)
    next
      case brk
      then have "lx' = lx" using eq True by simp
      then show ?thesis by simp
    next
      case reg
      then have rec: "build_word_loop (lex_advance lx) (buf @ [?c]) = (lx', buf')"
        using eq True by simp
      from "1.IH"(5)[OF True refl reg(1) reg(2) reg(3) reg(4) rec] True
      show ?thesis by simp
    qed
  qed
qed

text \<open>A word that starts at a character that does not break words consumes it.\<close>

lemma build_word_loop_progress:
  assumes "build_word_loop lx buf = (lx', buf')" "pos lx < len lx" "\<not> is_word_break (lex_cur lx)"
  shows "pos lx < pos lx'"
proof -
  note eq = assms(1)[unfolded build_word_loop.simps[of lx buf] Let_def]
  let ?c = "lex_cur lx"
  let ?next = "lex_peek lx 1"
  consider (sq) "?c = CHR 0x27"
    | (dq) "?c \<noteq> CHR 0x27" "?c = CHR 0x22"
    | (bs_nl) "?c \<noteq> CHR 0x27" "?c \<noteq> CHR 0x22" "?c = CHR 0x5C" "?next = CHR 0x0A"
    | (bs_end) "?c \<noteq> CHR 0x27" "?c \<noteq> CHR 0x22" "?c = CHR 0x5C" "?next \<noteq> CHR 0x0A" "?next = CHR 0x00"
    | (bs) "?c \<noteq> CHR 0x27" "?c \<noteq> CHR 0x22" "?c = CHR 0x5C" "?next \<noteq> CHR 0x0A" "?next \<noteq> CHR 0x00"
    | (reg) "?c \<noteq> CHR 0x27" "?c \<noteq> CHR 0x22" "?c \<noteq> CHR 0x5C"
    by blast
  then show ?thesis
  proof cases
    case sq
    obtain lx1 buf1 where q: "single_quoted (lex_advance lx) buf = (lx1, buf1)"
      by (cases "single_quoted (lex_advance lx) buf")
    note f = single_quoted_fields[OF q]
    show ?thesis
    proof (cases "pos lx1 \<ge> len lx1")
      case True
      then have "lx' = lex_error lx1 ''unterminated single quote''"
        using eq assms(2) sq q by simp
      then show ?thesis using f assms(2) by simp
    next
      case False
      then have rec: "build_word_loop (lex_advance lx1) buf1 = (lx', buf')"
        using eq assms(2) sq q by simp
      from build_word_loop_fields[OF rec] f assms(2) False show ?thesis by simp
    qed
  next
    case dq
    obtain lx1 buf1 where q: "double_quoted (lex_advance lx) buf = (lx1, buf1)"
      by (cases "double_quoted (lex_advance lx) buf")
    note f = double_quoted_fields[OF q]
    show ?thesis
    proof (cases "pos lx1 \<ge> len lx1")
      case True
      then have "lx' = lex_error lx1 ''unterminated double quote''"
        using eq assms(2) dq q by simp
      then show ?thesis using f assms(2) by simp
    next
      case False
      then have rec: "build_word_loop (lex_advance lx1) buf1 = (lx', buf')"
        using eq assms(2) dq q by simp
      from build_word_loop_fields[OF rec] f assms(2) False show ?thesis by simp
    qed
  next
    case bs_nl
    then have rec: "build_word_loop (lex_advance (lex_advance lx)) buf = (lx', buf')"
      using eq assms(2) by simp
    from build_word_loop_fields[OF rec] assms(2) show ?thesis by (simp split: if_splits)
  next
    case bs_end
    then have "lx' = lex_advance lx" using eq assms(2) by simp
    then show ?thesis using assms(2) by simp
  next
    case bs
    then have rec: "build_word_loop (lex_advance (lex_advance lx))
                      (buf @ [lex_cur (lex_advance lx)]) = (lx', buf')"
      using eq assms(2) by simp
    from build_word_loop_fields[OF rec] assms(2) show ?thesis by (simp split: if_splits)
  next
    case reg
    then have rec: "build_word_loop (lex_advance lx) (buf @ [?c]) = (lx', buf')"
      using eq assms(2,3) by simp
    from build_word_loop_fields[OF rec] assms(2) show ?thesis by simp
  qed
qed

lemma skip_whitespace_stops:
  "pos (skip_whitespace lx) < len (skip_whitespace lx) \<Longrightarrow>
     lex_cur (skip_whitespace lx) \<noteq> CHR '' '' \<and> lex_cur (skip_whitespace lx) \<noteq> CHR 0x09"
proof (induction lx rule: skip_whitespace.induct)
  case (1 lx)
  show ?case
  proof (cases "pos lx < len lx \<and> (input lx ! pos lx = CHR '' '' \<or> input lx ! pos lx = CHR 0x09)")
    case True
    then have "skip_whitespace lx = skip_whitespace (lex_advance lx)"
      by (subst skip_whitespace.simps) simp
    with "1.IH"[OF _ refl] "1.prems" True show ?thesis by auto
  next
    case False
    then have "skip_whitespace lx = lx"
      by (subst skip_whitespace.simps) auto
    then show ?thesis using False "1.prems" by (auto simp: lex_cur_def)
  qed
qed

lemma check_keyword_not_EOF: "check_keyword w \<noteq> TOK_EOF"
  by (simp add: check_keyword_def keyword_table_def)

lemma lexer_next_fd_redir_fields:
  assumes "lexer_next_fd_redir lx ln c = (tok, lx')" "pos lx < len lx"
  shows "input lx' = input lx \<and> len lx' = len lx \<and> pos lx < pos lx' \<and>
         error lx' = error lx \<and> tk_type tok \<noteq> TOK_EOF"
proof -
  obtain lx1 v where d: "dup_target (lex_advance (lex_advance (lex_advance lx))) [] = (lx1, v)"
    by (cases "dup_target (lex_advance (lex_advance (lex_advance lx))) []")
  from dup_target_fields[OF d] assms show ?thesis
    by (auto simp: lexer_next_fd_redir_def Let_def make_token_def d split: if_splits)
qed

lemma lexer_next_operator_Some:
  assumes "lexer_next_operator lx ln cl = Some (tok, lx')" "pos lx < len lx"
  shows "input lx' = input lx \<and> len lx' = len lx \<and> pos lx < pos lx' \<and>
         error lx' = error lx \<and> tk_type tok \<noteq> TOK_EOF"
  using assms
  by (auto simp: lexer_next_operator_def Let_def make_token_def split: if_splits)

lemma lexer_next_operator_None:
  assumes "lexer_next_operator lx ln cl = None"
  shows "lex_cur lx \<noteq> CHR ''|'' \<and> lex_cur lx \<noteq> CHR ''&'' \<and> lex_cur lx \<noteq> CHR '';'' \<and>
         lex_cur lx \<noteq> CHR ''>'' \<and> lex_cur lx \<noteq> CHR ''<'' \<and> lex_cur lx \<noteq> CHR ''('' \<and>
         lex_cur lx \<noteq> CHR '')'' \<and> lex_cur lx \<noteq> CHR ''{'' \<and> lex_cur lx \<noteq> CHR ''}''"
  using assms
  by (simp add: lexer_next_operator_def Let_def split: if_splits)

lemma lexer_next_fields:
  "lexer_next lx0 = (tok, lx') \<Longrightarrow>
     input lx' = input lx0 \<and> len lx' = len lx0 \<and> pos lx0 \<le> pos lx' \<and>
     (tk_type tok \<noteq> TOK_EOF \<longrightarrow> pos lx0 < pos lx' \<and> pos lx0 < len lx0) \<and>
     (tk_type tok = TOK_EOF \<longrightarrow> error lx' = error lx0)"
proof (induction lx0 arbitrary: tok lx' rule: lexer_next.induct)
  case (1 lx0)
  define lx where "lx = skip_whitespace lx0"
  note eq = "1.prems"[unfolded lexer_next.simps[of lx0], folded lx_def, unfolded Let_def]
  have sw: "input lx = input lx0" "len lx = len lx0" "pos lx0 \<le> pos lx" "error lx = error lx0"
    using skip_whitespace_fields[of lx0] by (simp_all add: lx_def)
  show ?case
  proof (cases "pos lx \<ge> len lx")
    case True
    then show ?thesis using eq sw by (auto simp: make_token_def)
  next
    case False
    then have lt: "pos lx < len lx" by simp
    have nosp: "lex_cur lx \<noteq> CHR '' ''" "lex_cur lx \<noteq> CHR 0x09"
      using skip_whitespace_stops[of lx0] lt by (simp_all add: lx_def)
    consider (comment) "lex_cur lx = CHR ''#''"
      | (newline) "lex_cur lx \<noteq> CHR ''#''" "lex_cur lx = CHR 0x0A"
      | (fd) "lex_cur lx \<noteq> CHR ''#''" "lex_cur lx \<noteq> CHR 0x0A"
             "isdigit (lex_cur lx) \<and> (lex_peek lx 1 = CHR ''>'' \<or> lex_peek lx 1 = CHR ''<'')"
      | (other) "lex_cur lx \<noteq> CHR ''#''" "lex_cur lx \<noteq> CHR 0x0A"
             "\<not> (isdigit (lex_cur lx) \<and> (lex_peek lx 1 = CHR ''>'' \<or> lex_peek lx 1 = CHR ''<''))"
      by blast
    then show ?thesis
    proof cases
      case comment
      then have rec: "lexer_next (skip_comment lx) = (tok, lx')"
        using eq False by simp
      have "input lx ! pos lx \<noteq> CHR 0x0A"
        using comment lt by (simp add: lex_cur_def)
      then have sc: "pos lx < pos (skip_comment lx)" "len (skip_comment lx) = len lx"
        "input (skip_comment lx) = input lx" "error (skip_comment lx) = error lx"
        using skip_comment_fields[of lx] lt by simp_all
      from "1.IH"[OF lx_def refl refl False refl comment rec] sc sw
      show ?thesis by auto
    next
      case newline
      then have "tok = make_token TOK_NEWLINE (Some [CHR 0x0A]) (line lx) (col lx)"
        "lx' = lex_advance lx"
        using eq False by simp_all
      then show ?thesis using sw lt by (simp add: make_token_def)
    next
      case fd
      then have "lexer_next_fd_redir lx (line lx) (lex_cur lx) = (tok, lx')"
        using eq False by (auto split: if_splits)
      from lexer_next_fd_redir_fields[OF this lt] sw lt show ?thesis by simp
    next
      case other
      show ?thesis
      proof (cases "lexer_next_operator lx (line lx) (col lx)")
        case (Some r)
        then have "lexer_next_operator lx (line lx) (col lx) = Some (tok, lx')"
          using eq False other by (auto split: if_splits)
        from lexer_next_operator_Some[OF this lt] sw lt show ?thesis by simp
      next
        case None
        then have bw: "build_word lx = (tok, lx')"
          using eq False other by (auto split: if_splits)
        obtain lx1 buf where l: "build_word_loop lx [] = (lx1, buf)"
          by (cases "build_word_loop lx []")
        have tok: "tok = make_token (check_keyword buf) (Some buf) (line lx) (col lx)" "lx' = lx1"
          using bw l by (simp_all add: build_word_def Let_def)
        have "\<not> is_word_break (lex_cur lx)"
          using lexer_next_operator_None[OF None] other nosp by (simp add: is_word_break_def)
        from build_word_loop_progress[OF l lt this] build_word_loop_fields[OF l] sw tok lt
        show ?thesis by (simp add: make_token_def check_keyword_not_EOF)
      qed
    qed
  qed
qed

text \<open>The loop of \<^verbatim>\<open>lexer_tokenize\<close>; the token list is the array \<^verbatim>\<open>tokens[0..count)\<close>.\<close>

function lexer_tokenize_loop :: "Lexer \<Rightarrow> Token list \<Rightarrow> Token list \<times> Lexer" where
  "lexer_tokenize_loop lx list =
     (case lexer_next lx of
        (tok, lx') \<Rightarrow>
          let list' = list @ [tok]
          in if tk_type tok = TOK_EOF then (list', lx')
             else if error lx' \<noteq> None then (list', lx')
             else lexer_tokenize_loop lx' list')"
  by pat_completeness auto
termination
proof (relation "measure (\<lambda>(lx, list). len lx - pos lx)", goal_cases)
  case 1
  show ?case by simp
next
  case (2 lx list tok lx' list')
  from lexer_next_fields[OF 2(1)[symmetric]] 2 show ?case by auto
qed

declare lexer_tokenize_loop.simps [simp del]

definition lexer_tokenize :: "Lexer \<Rightarrow> Token list \<times> Lexer" where
  "lexer_tokenize lx = lexer_tokenize_loop lx []"

section \<open>Parser (parser.c, parser.h)\<close>

text \<open>
  The tree is a datatype; a node pointer that may be \<^verbatim>\<open>NULL\<close> is an \<open>ASTNode option\<close>.
  The redirection chain of a command is a list, head first.  \<^verbatim>\<open>argc\<close>, \<^verbatim>\<open>nassign\<close>,
  \<^verbatim>\<open>nwords\<close> and \<^verbatim>\<open>count\<close> are the lengths of the lists.  A node made by
  \<^verbatim>\<open>arena_calloc\<close> starts with every field zero: empty lists and \<^verbatim>\<open>NULL\<close> pointers.

  A function returns \<open>None\<close> when the C function does not return.  That can happen: past
  the end of the token list \<^verbatim>\<open>cur_token\<close> keeps returning the last token, and a loop
  that waits for another kind of token never ends when the last token is not EOF.
  Self-contained loops are \<^theory_text>\<open>partial_function\<close>s; the mutually recursive functions take
  a bound on the depth of recursion as their first argument and return \<open>None\<close> when it is
  used up.
\<close>

datatype RedirType =
  REDIR_INPUT | REDIR_OUTPUT | REDIR_APPEND | REDIR_HEREDOC | REDIR_DUP_OUT | REDIR_DUP_IN

record Redirection =
  rd_type :: RedirType
  rd_fd :: int
  rd_target :: "string option"

record CommandNode =
  argv :: "string option list"
  redirs :: "Redirection list"
  assignments :: "string option list"

datatype ASTNode =
    NODE_COMMAND CommandNode
  | NODE_PIPELINE "ASTNode option list" bool
  | NODE_AND "ASTNode option" "ASTNode option"
  | NODE_OR "ASTNode option" "ASTNode option"
  | NODE_SEQUENCE "ASTNode option" "ASTNode option"
  | NODE_BACKGROUND "ASTNode option"
  | NODE_NEGATE "ASTNode option"
  | NODE_SUBSHELL "ASTNode option"
  | NODE_IF "ASTNode option" "ASTNode option" "ASTNode option"
  | NODE_WHILE "ASTNode option" "ASTNode option"
  | NODE_FOR "string option" "string option list" "ASTNode option"
  | NODE_FUNCTION "string option" "ASTNode option"
  | NODE_BLOCK "ASTNode option"

record Parser =
  tokens :: "Token list"
  ppos :: nat
  perror :: "string option"
  had_error :: bool

fun token_type_str :: "TokenType \<Rightarrow> string" where
  "token_type_str TOK_WORD = ''WORD''"
| "token_type_str TOK_PIPE = ''PIPE''"
| "token_type_str TOK_AND = ''AND''"
| "token_type_str TOK_OR = ''OR''"
| "token_type_str TOK_SEMI = ''SEMI''"
| "token_type_str TOK_AMP = ''AMP''"
| "token_type_str TOK_REDIR_IN = ''REDIR_IN''"
| "token_type_str TOK_REDIR_OUT = ''REDIR_OUT''"
| "token_type_str TOK_REDIR_APPEND = ''REDIR_APPEND''"
| "token_type_str TOK_REDIR_HEREDOC = ''REDIR_HEREDOC''"
| "token_type_str TOK_REDIR_DUP = ''REDIR_DUP''"
| "token_type_str TOK_LPAREN = ''LPAREN''"
| "token_type_str TOK_RPAREN = ''RPAREN''"
| "token_type_str TOK_NEWLINE = ''NEWLINE''"
| "token_type_str TOK_IF = ''IF''"
| "token_type_str TOK_THEN = ''THEN''"
| "token_type_str TOK_ELIF = ''ELIF''"
| "token_type_str TOK_ELSE = ''ELSE''"
| "token_type_str TOK_FI = ''FI''"
| "token_type_str TOK_WHILE = ''WHILE''"
| "token_type_str TOK_FOR = ''FOR''"
| "token_type_str TOK_DO = ''DO''"
| "token_type_str TOK_DONE = ''DONE''"
| "token_type_str TOK_IN = ''IN''"
| "token_type_str TOK_FUNCTION = ''FUNCTION''"
| "token_type_str TOK_RETURN = ''RETURN''"
| "token_type_str TOK_LOCAL = ''LOCAL''"
| "token_type_str TOK_LBRACE = ''LBRACE''"
| "token_type_str TOK_RBRACE = ''RBRACE''"
| "token_type_str TOK_BANG = ''BANG''"
| "token_type_str TOK_EOF = ''EOF''"

subsection \<open>Token helpers\<close>

definition cur_token :: "Parser \<Rightarrow> Token" where
  "cur_token p =
     (if ppos p \<ge> length (tokens p) then tokens p ! (length (tokens p) - 1)
      else tokens p ! ppos p)"

definition advance :: "Parser \<Rightarrow> Token \<times> Parser" where
  "advance p =
     (cur_token p, if ppos p < length (tokens p) then p\<lparr>ppos := ppos p + 1\<rparr> else p)"

definition check :: "Parser \<Rightarrow> TokenType \<Rightarrow> bool" where
  "check p ty = (tk_type (cur_token p) = ty)"

definition match_tok :: "Parser \<Rightarrow> TokenType \<Rightarrow> bool \<times> Parser" where
  "match_tok p ty = (if check p ty then (True, snd (advance p)) else (False, p))"

definition parser_error_at :: "Parser \<Rightarrow> Token \<Rightarrow> string \<Rightarrow> Parser" where
  "parser_error_at p tok msg =
     (if had_error p then p
      else p\<lparr>had_error := True,
             perror := Some (take 255
               (if tk_type tok = TOK_EOF then ''parse error at end of input: '' @ msg
                else ''parse error at line '' @ show_int (tk_line tok) @ '' col ''
                     @ show_int (tk_col tok) @ '' near '' @ [CHR 0x27]
                     @ (case tk_value tok of Some v \<Rightarrow> v | None \<Rightarrow> token_type_str (tk_type tok))
                     @ [CHR 0x27] @ '': '' @ msg))\<rparr>)"

definition expect :: "Parser \<Rightarrow> TokenType \<Rightarrow> Token option \<times> Parser" where
  "expect p ty =
     (if check p ty then (case advance p of (tok, p') \<Rightarrow> (Some tok, p'))
      else (None, parser_error_at p (cur_token p)
                    (take 127 (''expected '' @ [CHR 0x27] @ token_type_str ty @ [CHR 0x27]))))"

partial_function (option) skip_newlines :: "Parser \<Rightarrow> Parser option" where
  "skip_newlines p =
     (if check p TOK_NEWLINE then skip_newlines (snd (advance p)) else Some p)"

declare skip_newlines.simps [code]

definition is_redir :: "TokenType \<Rightarrow> bool" where
  "is_redir t = (t = TOK_REDIR_IN \<or> t = TOK_REDIR_OUT \<or> t = TOK_REDIR_APPEND \<or>
                 t = TOK_REDIR_HEREDOC \<or> t = TOK_REDIR_DUP)"

definition at_command_start :: "Parser \<Rightarrow> bool" where
  "at_command_start p =
     (let t = tk_type (cur_token p)
      in t = TOK_WORD \<or> t = TOK_IF \<or> t = TOK_WHILE \<or> t = TOK_FOR \<or> t = TOK_LBRACE \<or>
         t = TOK_LPAREN \<or> t = TOK_FUNCTION \<or> t = TOK_BANG \<or> is_redir t)"

subsection \<open>Simple commands\<close>

text \<open>
  \<^verbatim>\<open>parse_redirection\<close> changes the command and the parser: it returns both.  The part
  after its \<^verbatim>\<open>switch\<close>, the target word and the new head of the chain, is
  \<open>parse_redirection_target\<close>.
\<close>

definition parse_redirection_target ::
  "Parser \<Rightarrow> CommandNode \<Rightarrow> Token \<Rightarrow> RedirType \<Rightarrow> int \<Rightarrow> CommandNode \<times> Parser" where
  "parse_redirection_target p cmd op rtype default_fd =
     (case expect p TOK_WORD of
        (None, p') \<Rightarrow> (cmd, p')
      | (Some target, p') \<Rightarrow>
          (cmd\<lparr>redirs :=
                 \<lparr>rd_type = rtype,
                  rd_fd = (if redir_fd op \<ge> 0 then redir_fd op else default_fd),
                  rd_target = tk_value target\<rparr> # redirs cmd\<rparr>, p'))"

definition parse_redirection :: "Parser \<Rightarrow> CommandNode \<Rightarrow> CommandNode \<times> Parser" where
  "parse_redirection p0 cmd =
     (case advance p0 of
        (op, p) \<Rightarrow>
          if tk_type op = TOK_REDIR_IN then parse_redirection_target p cmd op REDIR_INPUT 0
          else if tk_type op = TOK_REDIR_OUT then parse_redirection_target p cmd op REDIR_OUTPUT 1
          else if tk_type op = TOK_REDIR_APPEND then parse_redirection_target p cmd op REDIR_APPEND 1
          else if tk_type op = TOK_REDIR_HEREDOC then parse_redirection_target p cmd op REDIR_HEREDOC 0
          else if tk_type op = TOK_REDIR_DUP then
            (if (case tk_value op of Some (c # cs) \<Rightarrow> c = CHR ''<'' | _ \<Rightarrow> False)
             then parse_redirection_target p cmd op REDIR_DUP_IN 0
             else parse_redirection_target p cmd op REDIR_DUP_OUT 1)
          else (cmd, parser_error_at p op ''unexpected redirection operator''))"

partial_function (option) parse_simple_cmd_loop ::
  "Parser \<Rightarrow> CommandNode \<Rightarrow> (CommandNode \<times> Parser) option" where
  "parse_simple_cmd_loop p cmd =
     (if \<not> had_error p then
        (if is_redir (tk_type (cur_token p)) then
           (case parse_redirection p cmd of (cmd', p') \<Rightarrow> parse_simple_cmd_loop p' cmd')
         else if tk_type (cur_token p) = TOK_WORD then
           (case advance p of
              (tok, p') \<Rightarrow> parse_simple_cmd_loop p' (cmd\<lparr>argv := argv cmd @ [tk_value tok]\<rparr>))
         else Some (cmd, p))
      else Some (cmd, p))"

declare parse_simple_cmd_loop.simps [code]

definition parse_simple_cmd :: "Parser \<Rightarrow> (ASTNode option \<times> Parser) option" where
  "parse_simple_cmd p0 =
     do {
       (cmd, p) \<leftarrow> parse_simple_cmd_loop p0 \<lparr>argv = [], redirs = [], assignments = []\<rparr>;
       if argv cmd = [] \<and> redirs cmd = []
       then Some (None, parser_error_at p (cur_token p) ''expected a command'')
       else Some (Some (NODE_COMMAND cmd), p)
     }"

subsection \<open>Compound commands\<close>

text \<open>
  The functions below call \<^verbatim>\<open>parse_list\<close>; they take it as the argument \<open>pl\<close>, which
  is \<^verbatim>\<open>parse_list\<close> at the remaining depth.  A result \<open>(None, p)\<close> is the C function's
  \<^verbatim>\<open>return NULL\<close>.

  \<^verbatim>\<open>parse_if\<close> is split into the blocks it repeats.  It writes the same block four times, for the \<^verbatim>\<open>if\<close> and for each
  \<^verbatim>\<open>elif\<close> it unrolls: skip newlines, parse the condition, expect \<^verbatim>\<open>then\<close>, parse
  the body, skip newlines.  That block is \<open>parse_if_clause\<close>; a result \<open>(None, p)\<close> is
  one of its \<^verbatim>\<open>return NULL\<close>.  The block after \<^verbatim>\<open>else\<close>, written three times, is
  \<open>parse_else_branch\<close>.
\<close>

definition parse_if_clause ::
  "(Parser \<Rightarrow> (ASTNode option \<times> Parser) option) \<Rightarrow> Parser \<Rightarrow>
   ((ASTNode option \<times> ASTNode option) option \<times> Parser) option" where
  "parse_if_clause pl p0 =
     do {
       p1 \<leftarrow> skip_newlines p0;
       (condition, p2) \<leftarrow> pl p1;
       if had_error p2 then Some (None, p2)
       else do {
         p3 \<leftarrow> skip_newlines p2;
         case expect p3 TOK_THEN of
           (None, p4) \<Rightarrow> Some (None, p4)
         | (Some t, p4) \<Rightarrow>
             do {
               p5 \<leftarrow> skip_newlines p4;
               (then_body, p6) \<leftarrow> pl p5;
               if had_error p6 then Some (None, p6)
               else do {
                 p7 \<leftarrow> skip_newlines p6;
                 Some (Some (condition, then_body), p7)
               }
             }
       }
     }"

definition parse_else_branch ::
  "(Parser \<Rightarrow> (ASTNode option \<times> Parser) option) \<Rightarrow> Parser \<Rightarrow>
   (ASTNode option option \<times> Parser) option" where
  "parse_else_branch pl p0 =
     do {
       p1 \<leftarrow> skip_newlines (snd (advance p0));
       (else_body, p2) \<leftarrow> pl p1;
       if had_error p2 then Some (None, p2)
       else do {
         p3 \<leftarrow> skip_newlines p2;
         Some (Some else_body, p3)
       }
     }"

text \<open>
  The nodes \<^verbatim>\<open>rest\<close>, \<^verbatim>\<open>next\<close>, ... that \<^verbatim>\<open>parse_if\<close> links through
  \<^verbatim>\<open>else_body\<close>, with the else part of the last one.
\<close>

fun if_chain ::
  "ASTNode option \<times> ASTNode option \<Rightarrow> (ASTNode option \<times> ASTNode option) list \<Rightarrow>
   ASTNode option \<Rightarrow> ASTNode" where
  "if_chain (c, t) [] els = NODE_IF c t els"
| "if_chain (c, t) (x # xs) els = NODE_IF c t (Some (if_chain x xs els))"

text \<open>
  The part of \<^verbatim>\<open>parse_if\<close> between the first clause and \<^verbatim>\<open>fi\<close>: it returns the
  \<^verbatim>\<open>else_body\<close> of the outer node (\<open>Some None\<close> when there is none), or \<open>None\<close> where
  the C code returns \<^verbatim>\<open>NULL\<close>.  \<open>pel\<close> is the \<^verbatim>\<open>while (check(parser, TOK_ELIF))\<close> loop
  of the third level, which returns the clauses it read.
\<close>

definition parse_if_else ::
  "(Parser \<Rightarrow> (ASTNode option \<times> Parser) option) \<Rightarrow>
   (Parser \<Rightarrow> (ASTNode option \<times> ASTNode option) list \<Rightarrow>
      ((ASTNode option \<times> ASTNode option) list option \<times> Parser) option) \<Rightarrow>
   Parser \<Rightarrow> (ASTNode option option \<times> Parser) option" where
  "parse_if_else pl pel p1 =
     (if check p1 TOK_ELIF then
        do {
          (ecl, q1) \<leftarrow> parse_if_clause pl (snd (advance p1));
          case ecl of
            None \<Rightarrow> Some (None, q1)
          | Some (econd, ethen) \<Rightarrow>
              if check q1 TOK_ELIF then
                do {
                  (rcl, q2) \<leftarrow> parse_if_clause pl (snd (advance q1));
                  case rcl of
                    None \<Rightarrow> Some (None, q2)
                  | Some rc \<Rightarrow>
                      do {
                        (more, q3) \<leftarrow> pel q2 [];
                        case more of
                          None \<Rightarrow> Some (None, q3)
                        | Some cs \<Rightarrow>
                            if check q3 TOK_ELSE then
                              do {
                                (e, q4) \<leftarrow> parse_else_branch pl q3;
                                case e of
                                  None \<Rightarrow> Some (None, q4)
                                | Some els \<Rightarrow>
                                    Some (Some (Some (NODE_IF econd ethen
                                            (Some (if_chain rc cs els)))), q4)
                              }
                            else Some (Some (Some (NODE_IF econd ethen
                                         (Some (if_chain rc cs None)))), q3)
                      }
                }
              else if check q1 TOK_ELSE then
                do {
                  (e, q2) \<leftarrow> parse_else_branch pl q1;
                  case e of
                    None \<Rightarrow> Some (None, q2)
                  | Some els \<Rightarrow> Some (Some (Some (NODE_IF econd ethen els)), q2)
                }
              else Some (Some (Some (NODE_IF econd ethen None)), q1)
        }
      else if check p1 TOK_ELSE then
        do {
          (e, q1) \<leftarrow> parse_else_branch pl p1;
          case e of
            None \<Rightarrow> Some (None, q1)
          | Some els \<Rightarrow> Some (Some els, q1)
        }
      else Some (Some None, p1))"

definition parse_if ::
  "(Parser \<Rightarrow> (ASTNode option \<times> Parser) option) \<Rightarrow>
   (Parser \<Rightarrow> (ASTNode option \<times> ASTNode option) list \<Rightarrow>
      ((ASTNode option \<times> ASTNode option) list option \<times> Parser) option) \<Rightarrow>
   Parser \<Rightarrow> (ASTNode option \<times> Parser) option" where
  "parse_if pl pel p0 =
     do {
       (cl, p1) \<leftarrow> parse_if_clause pl p0;
       case cl of
         None \<Rightarrow> Some (None, p1)
       | Some (condition, then_body) \<Rightarrow>
           do {
             (r, p2) \<leftarrow> parse_if_else pl pel p1;
             case r of
               None \<Rightarrow> Some (None, p2)
             | Some else_body \<Rightarrow>
                 (case expect p2 TOK_FI of
                    (None, p3) \<Rightarrow> Some (None, p3)
                  | (Some t, p3) \<Rightarrow> Some (Some (NODE_IF condition then_body else_body), p3))
           }
     }"

definition parse_while ::
  "(Parser \<Rightarrow> (ASTNode option \<times> Parser) option) \<Rightarrow> Parser \<Rightarrow>
   (ASTNode option \<times> Parser) option" where
  "parse_while pl p0 =
     do {
       p1 \<leftarrow> skip_newlines p0;
       (condition, p2) \<leftarrow> pl p1;
       if had_error p2 then Some (None, p2)
       else do {
         p3 \<leftarrow> skip_newlines p2;
         case expect p3 TOK_DO of
           (None, p4) \<Rightarrow> Some (None, p4)
         | (Some t, p4) \<Rightarrow>
             do {
               p5 \<leftarrow> skip_newlines p4;
               (body, p6) \<leftarrow> pl p5;
               if had_error p6 then Some (None, p6)
               else do {
                 p7 \<leftarrow> skip_newlines p6;
                 case expect p7 TOK_DONE of
                   (None, p8) \<Rightarrow> Some (None, p8)
                 | (Some t', p8) \<Rightarrow> Some (Some (NODE_WHILE condition body), p8)
               }
             }
       }
     }"

text \<open>The loop of \<^verbatim>\<open>parse_for\<close> that collects the words after \<^verbatim>\<open>in\<close>.\<close>

partial_function (option) parse_for_words ::
  "Parser \<Rightarrow> string option list \<Rightarrow> (string option list \<times> Parser) option" where
  "parse_for_words p ws =
     (if check p TOK_WORD then
        (case advance p of (w, p') \<Rightarrow> parse_for_words p' (ws @ [tk_value w]))
      else Some (ws, p))"

declare parse_for_words.simps [code]

text \<open>The optional word list of \<^verbatim>\<open>parse_for\<close>, with the \<^verbatim>\<open>;\<close> or newline after it.\<close>

definition parse_for_in :: "Parser \<Rightarrow> (string option list \<times> Parser) option" where
  "parse_for_in p =
     (if check p TOK_IN then
        do {
          (ws, q) \<leftarrow> parse_for_words (snd (advance p)) [];
          Some (ws, if check q TOK_SEMI \<or> check q TOK_NEWLINE then snd (advance q) else q)
        }
      else Some ([], p))"

definition parse_for ::
  "(Parser \<Rightarrow> (ASTNode option \<times> Parser) option) \<Rightarrow> Parser \<Rightarrow>
   (ASTNode option \<times> Parser) option" where
  "parse_for pl p0 =
     do {
       p1 \<leftarrow> skip_newlines p0;
       case expect p1 TOK_WORD of
         (None, p2) \<Rightarrow> Some (None, p2)
       | (Some var, p2) \<Rightarrow>
           do {
             p3 \<leftarrow> skip_newlines p2;
             (ws, p4) \<leftarrow> parse_for_in p3;
             p5 \<leftarrow> skip_newlines p4;
             case expect p5 TOK_DO of
               (None, p6) \<Rightarrow> Some (None, p6)
             | (Some t, p6) \<Rightarrow>
                 do {
                   p7 \<leftarrow> skip_newlines p6;
                   (body, p8) \<leftarrow> pl p7;
                   if had_error p8 then Some (None, p8)
                   else do {
                     p9 \<leftarrow> skip_newlines p8;
                     case expect p9 TOK_DONE of
                       (None, p10) \<Rightarrow> Some (None, p10)
                     | (Some t', p10) \<Rightarrow> Some (Some (NODE_FOR (tk_value var) ws body), p10)
                   }
                 }
           }
     }"

definition parse_function_body ::
  "(Parser \<Rightarrow> (ASTNode option \<times> Parser) option) \<Rightarrow> string option \<Rightarrow> Parser \<Rightarrow>
   (ASTNode option \<times> Parser) option" where
  "parse_function_body pl name p0 =
     do {
       p1 \<leftarrow> skip_newlines p0;
       case expect p1 TOK_LBRACE of
         (None, p2) \<Rightarrow> Some (None, p2)
       | (Some t, p2) \<Rightarrow>
           do {
             p3 \<leftarrow> skip_newlines p2;
             (body, p4) \<leftarrow> pl p3;
             if had_error p4 then Some (None, p4)
             else do {
               p5 \<leftarrow> skip_newlines p4;
               case expect p5 TOK_RBRACE of
                 (None, p6) \<Rightarrow> Some (None, p6)
               | (Some t', p6) \<Rightarrow> Some (Some (NODE_FUNCTION name body), p6)
             }
           }
     }"

definition parse_function ::
  "(Parser \<Rightarrow> (ASTNode option \<times> Parser) option) \<Rightarrow> Parser \<Rightarrow>
   (ASTNode option \<times> Parser) option" where
  "parse_function pl p0 =
     (case expect p0 TOK_WORD of
        (None, p1) \<Rightarrow> Some (None, p1)
      | (Some name_tok, p1) \<Rightarrow>
          if check p1 TOK_LPAREN then
            (case expect (snd (advance p1)) TOK_RPAREN of
               (None, p2) \<Rightarrow> Some (None, p2)
             | (Some t, p2) \<Rightarrow> parse_function_body pl (tk_value name_tok) p2)
          else parse_function_body pl (tk_value name_tok) p1)"

text \<open>The brace group and the subshell of \<^verbatim>\<open>parse_command\<close>; \<open>close\<close> is the closing
  token and \<open>mk\<close> makes the node.\<close>

definition parse_group ::
  "(Parser \<Rightarrow> (ASTNode option \<times> Parser) option) \<Rightarrow> TokenType \<Rightarrow>
   (ASTNode option \<Rightarrow> ASTNode) \<Rightarrow> Parser \<Rightarrow> (ASTNode option \<times> Parser) option" where
  "parse_group pl close mk p0 =
     do {
       p1 \<leftarrow> skip_newlines (snd (advance p0));
       (body, p2) \<leftarrow> pl p1;
       if had_error p2 then Some (None, p2)
       else do {
         p3 \<leftarrow> skip_newlines p2;
         case expect p3 close of
           (None, p4) \<Rightarrow> Some (None, p4)
         | (Some t, p4) \<Rightarrow> Some (Some (mk body), p4)
       }
     }"

subsection \<open>Lists, pipelines and commands\<close>

fun parse_list :: "nat \<Rightarrow> Parser \<Rightarrow> (ASTNode option \<times> Parser) option"
  and parse_list_loop :: "nat \<Rightarrow> Parser \<Rightarrow> ASTNode option \<Rightarrow> (ASTNode option \<times> Parser) option"
  and parse_pipeline :: "nat \<Rightarrow> Parser \<Rightarrow> (ASTNode option \<times> Parser) option"
  and parse_pipeline_loop ::
    "nat \<Rightarrow> Parser \<Rightarrow> ASTNode option list \<Rightarrow> (ASTNode option list option \<times> Parser) option"
  and parse_command :: "nat \<Rightarrow> Parser \<Rightarrow> (ASTNode option \<times> Parser) option"
  and parse_elif_loop ::
    "nat \<Rightarrow> Parser \<Rightarrow> (ASTNode option \<times> ASTNode option) list \<Rightarrow>
     ((ASTNode option \<times> ASTNode option) list option \<times> Parser) option"
where
  "parse_list 0 p0 = None"
| "parse_list (Suc n) p0 =
     do {
       p \<leftarrow> skip_newlines p0;
       if \<not> at_command_start p then Some (None, p)
       else do {
         (left, p1) \<leftarrow> parse_pipeline n p;
         if had_error p1 then Some (None, p1)
         else parse_list_loop n p1 left
       }
     }"
| "parse_list_loop 0 p left = None"
| "parse_list_loop (Suc n) p left =
     (if check p TOK_AND then
        do {
          p1 \<leftarrow> skip_newlines (snd (advance p));
          if \<not> at_command_start p1 then Some (left, p1)
          else do {
            (right, p2) \<leftarrow> parse_pipeline n p1;
            if had_error p2 then Some (None, p2)
            else parse_list_loop n p2 (Some (NODE_AND left right))
          }
        }
      else if check p TOK_OR then
        do {
          p1 \<leftarrow> skip_newlines (snd (advance p));
          if \<not> at_command_start p1 then Some (left, p1)
          else do {
            (right, p2) \<leftarrow> parse_pipeline n p1;
            if had_error p2 then Some (None, p2)
            else parse_list_loop n p2 (Some (NODE_OR left right))
          }
        }
      else if check p TOK_AMP then
        do {
          p1 \<leftarrow> skip_newlines (snd (advance p));
          if \<not> at_command_start p1 then Some (Some (NODE_BACKGROUND left), p1)
          else do {
            (right, p2) \<leftarrow> parse_pipeline n p1;
            if had_error p2 then Some (None, p2)
            else parse_list_loop n p2
                   (Some (NODE_SEQUENCE (Some (NODE_BACKGROUND left)) right))
          }
        }
      else if check p TOK_SEMI \<or> check p TOK_NEWLINE then
        do {
          p1 \<leftarrow> skip_newlines (snd (advance p));
          if \<not> at_command_start p1 then Some (left, p1)
          else do {
            (right, p2) \<leftarrow> parse_pipeline n p1;
            if had_error p2 then Some (None, p2)
            else parse_list_loop n p2 (Some (NODE_SEQUENCE left right))
          }
        }
      else Some (left, p))"
| "parse_pipeline 0 p0 = None"
| "parse_pipeline (Suc n) p0 =
     (let negated = check p0 TOK_BANG;
          p = (if negated then snd (advance p0) else p0)
      in do {
           (first, p1) \<leftarrow> parse_command n p;
           if had_error p1 then Some (None, p1)
           else if \<not> check p1 TOK_PIPE \<and> \<not> negated then Some (first, p1)
           else do {
             (cmds, p2) \<leftarrow> parse_pipeline_loop n p1 [first];
             case cmds of
               None \<Rightarrow> Some (None, p2)
             | Some cs \<Rightarrow> Some (Some (NODE_PIPELINE cs negated), p2)
           }
         })"
| "parse_pipeline_loop 0 p cmds = None"
| "parse_pipeline_loop (Suc n) p cmds =
     (case match_tok p TOK_PIPE of
        (False, p1) \<Rightarrow> Some (Some cmds, p1)
      | (True, p1) \<Rightarrow>
          do {
            p2 \<leftarrow> skip_newlines p1;
            (cmd, p3) \<leftarrow> parse_command n p2;
            if had_error p3 then Some (None, p3)
            else parse_pipeline_loop n p3 (cmds @ [cmd])
          })"
| "parse_command 0 p = None"
| "parse_command (Suc n) p =
     (let tok = cur_token p
      in if tk_type tok = TOK_IF then
           parse_if (parse_list n) (parse_elif_loop n) (snd (advance p))
         else if tk_type tok = TOK_WHILE then parse_while (parse_list n) (snd (advance p))
         else if tk_type tok = TOK_FOR then parse_for (parse_list n) (snd (advance p))
         else if tk_type tok = TOK_FUNCTION then parse_function (parse_list n) (snd (advance p))
         else if tk_type tok = TOK_LBRACE then parse_group (parse_list n) TOK_RBRACE NODE_BLOCK p
         else if tk_type tok = TOK_LPAREN then parse_group (parse_list n) TOK_RPAREN NODE_SUBSHELL p
         else if tk_type tok = TOK_WORD then
           (if ppos p + 2 < length (tokens p) \<and>
               tk_type (tokens p ! (ppos p + 1)) = TOK_LPAREN \<and>
               tk_type (tokens p ! (ppos p + 2)) = TOK_RPAREN
            then (case advance p of
                    (name_tok, p1) \<Rightarrow>
                      parse_function_body (parse_list n) (tk_value name_tok)
                        (snd (advance (snd (advance p1)))))
            else parse_simple_cmd p)
         else if is_redir (tk_type tok) then parse_simple_cmd p
         else Some (None, parser_error_at p tok ''unexpected token''))"
| "parse_elif_loop 0 p acc = None"
| "parse_elif_loop (Suc n) p acc =
     (if check p TOK_ELIF then
        do {
          (cl, p1) \<leftarrow> parse_if_clause (parse_list n) (snd (advance p));
          case cl of
            None \<Rightarrow> Some (None, p1)
          | Some c \<Rightarrow> parse_elif_loop n p1 (acc @ [c])
        }
      else Some (Some acc, p))"

definition parse_program :: "nat \<Rightarrow> Parser \<Rightarrow> (ASTNode option \<times> Parser) option" where
  "parse_program n p0 =
     do {
       p \<leftarrow> skip_newlines p0;
       (root, p1) \<leftarrow> (if \<not> check p TOK_EOF then parse_list n p else Some (None, p));
       if \<not> check p TOK_EOF \<and> had_error p1 then Some (None, p1)
       else do {
         p2 \<leftarrow> skip_newlines p1;
         if \<not> check p2 TOK_EOF
         then Some (None, parser_error_at p2 (cur_token p2)
                            ''unexpected token after end of command'')
         else Some (root, p2)
       }
     }"

definition parser_init :: "Token list \<Rightarrow> Parser" where
  "parser_init toks = \<lparr>tokens = toks, ppos = 0, perror = None, had_error = False\<rparr>"

definition parser_parse :: "nat \<Rightarrow> Parser \<Rightarrow> (ASTNode option \<times> Parser) option" where
  "parser_parse n p = parse_program n p"

section \<open>Shell state, environment and expansion (shell.h, env.c)\<close>

text \<open>
  The environment table is a hash table with chaining.  \<^verbatim>\<open>env_set\<close> searches the chain of
  the key and overwrites the entry it finds there, so a key occurs at most once and the table
  is a map from a key to its value and its exported flag.  \<^verbatim>\<open>setenv\<close> writes the process
  environment, the field \<open>environ\<close>.  What the shell writes to its standard output and
  standard error is appended to \<open>stdout_text\<close> and \<open>stderr_text\<close>.  The field \<open>os\<close> stands
  for the state outside the memory of the shell: the process table, the job table, the
  terminal and the file system.  Calls that leave the program are fields of a \<open>World\<close>; they
  read and change \<open>os\<close>.  The handlers of the builtin commands other than \<^verbatim>\<open>echo\<close> are a
  field of the world too; a handler may change the whole shell.  The calls that set process
  groups, the terminal's foreground group and signal dispositions are left out.

  Heap allocation (\<^verbatim>\<open>malloc\<close>, \<^verbatim>\<open>strdup\<close>, the arena, the string buffer) is taken to
  succeed here.  A C string is a \<open>string\<close>, a pointer to one that may be \<^verbatim>\<open>NULL\<close> is a
  \<open>string option\<close>; \<open>char_at s i\<close> reads \<^verbatim>\<open>s[i]\<close>, which is the terminating NUL at the end.
\<close>

type_synonym EnvTable = "string \<rightharpoonup> string \<times> bool"

record Shell =
  env :: EnvTable
  environ :: "string \<rightharpoonup> string"
  last_status :: int
  shell_pid :: int
  interactive :: bool
  pos_params :: "string list option"
  pos_count :: int
  stdout_text :: string
  stderr_text :: string
  os :: nat

datatype OpenFlags = O_RDONLY | O_WRONLY_CREAT_TRUNC | O_WRONLY_CREAT_APPEND

record World =
  sys_open :: "nat \<Rightarrow> string \<Rightarrow> OpenFlags \<Rightarrow> bool \<times> nat"
  sys_fd_limit :: nat
  sys_exec ::
    "nat \<Rightarrow> string list \<Rightarrow> (string \<rightharpoonup> string) \<Rightarrow> (string \<rightharpoonup> string) \<Rightarrow> int option"
  sys_getpwnam :: "nat \<Rightarrow> string \<Rightarrow> string option"
  sys_glob :: "nat \<Rightarrow> string \<Rightarrow> string list"
  sys_strerror :: "nat \<Rightarrow> string"
  sys_fork :: "nat \<Rightarrow> int \<times> nat"
  sys_job_add :: "nat \<Rightarrow> int \<Rightarrow> string \<Rightarrow> bool \<Rightarrow> int option \<times> nat"
  sys_wait_foreground :: "nat \<Rightarrow> int \<Rightarrow> int \<times> string \<times> nat"
  sys_pipeline_start :: "nat \<Rightarrow> ASTNode option list \<Rightarrow> int option \<times> string \<times> nat"
  sys_ptr :: "ASTNode option \<Rightarrow> string"
  builtin_handler :: "string \<Rightarrow> Shell \<Rightarrow> string list \<Rightarrow> int \<times> Shell"

definition char_at :: "string \<Rightarrow> nat \<Rightarrow> char" where
  "char_at s i = (if i < length s then s ! i else CHR 0x00)"

definition isalpha :: "char \<Rightarrow> bool" where
  "isalpha c = ((65 \<le> (of_char c :: nat) \<and> (of_char c :: nat) \<le> 90) \<or>
                (97 \<le> (of_char c :: nat) \<and> (of_char c :: nat) \<le> 122))"

definition isalnum :: "char \<Rightarrow> bool" where
  "isalnum c = (isalpha c \<or> isdigit c)"

definition print_err :: "Shell \<Rightarrow> string \<Rightarrow> Shell" where
  "print_err sh s = sh\<lparr>stderr_text := stderr_text sh @ s\<rparr>"

definition print_out :: "Shell \<Rightarrow> string \<Rightarrow> Shell" where
  "print_out sh s = sh\<lparr>stdout_text := stdout_text sh @ s\<rparr>"

text \<open>\<^verbatim>\<open>perror(s)\<close>: the text, a colon and the message of the last error.\<close>

definition perror_sh :: "World \<Rightarrow> Shell \<Rightarrow> string \<Rightarrow> Shell" where
  "perror_sh w sh s = print_err sh (s @ '': '' @ sys_strerror w (os sh) @ [CHR 0x0A])"

subsection \<open>The table\<close>

definition env_get :: "EnvTable \<Rightarrow> string \<Rightarrow> string option" where
  "env_get e key = (case e key of None \<Rightarrow> None | Some (v, ex) \<Rightarrow> Some v)"

definition env_set :: "Shell \<Rightarrow> string option \<Rightarrow> string option \<Rightarrow> bool \<Rightarrow> Shell" where
  "env_set sh key val exported =
     (case key of
        None \<Rightarrow> sh
      | Some k \<Rightarrow>
          let v = (case val of None \<Rightarrow> [] | Some x \<Rightarrow> x)
          in sh\<lparr>env := (env sh)(k \<mapsto> (v, exported)),
                environ := (if exported then (environ sh)(k \<mapsto> v) else environ sh)\<rparr>)"

text \<open>\<^verbatim>\<open>env_build_envp\<close>: the exported entries (as a map; the order of the array is left out).\<close>

definition env_build_envp :: "EnvTable \<Rightarrow> (string \<rightharpoonup> string)" where
  "env_build_envp e =
     (\<lambda>k. case e k of None \<Rightarrow> None | Some (v, exported) \<Rightarrow> if exported then Some v else None)"

subsection \<open>Variable expansion\<close>

text \<open>
  \<^verbatim>\<open>read_brace_body\<close> copies the body of a \<^verbatim>\<open>${NAME:op body}\<close> up to the closing brace
  and returns the rest of the input, which starts at that brace, and the body.
\<close>

function read_brace_body :: "string \<Rightarrow> int \<Rightarrow> string \<Rightarrow> string \<times> string" where
  "read_brace_body [] depth body = ([], body)"
| "read_brace_body (c # cs) depth body =
     (if c = CHR ''$'' \<and> char_at cs 0 = CHR ''{'' then
        read_brace_body (tl cs) (depth + 1) (body @ [c, CHR ''{''])
      else if c = CHR ''}'' then
        (if depth = 0 then (c # cs, body)
         else read_brace_body cs (depth - 1) (body @ [c]))
      else read_brace_body cs depth (body @ [c]))"
  by pat_completeness auto
termination
  by (relation "measure (\<lambda>(p, d, b). length p)") auto

text \<open>
  \<^verbatim>\<open>expand_brace\<close> starts after \<^verbatim>\<open>${\<close>.  It returns the rest of the input, the shell
  (\<^verbatim>\<open>:=\<close> sets a variable, \<^verbatim>\<open>:?\<close> prints) and the result buffer.  It has no other result:
  nothing tells the caller that \<^verbatim>\<open>:?\<close> found the variable unset.
\<close>

definition expand_brace :: "Shell \<Rightarrow> string \<Rightarrow> string \<Rightarrow> string \<times> Shell \<times> string" where
  "expand_brace sh start result =
     (let is_name = (\<lambda>c. c \<noteq> CHR ''}'' \<and> c \<noteq> CHR '':'');
          varname = takeWhile is_name start;
          p = dropWhile is_name start;
          val = env_get (env sh) varname;
          unset = (val = None \<or> val = Some []);
          value = (case val of None \<Rightarrow> [] | Some v \<Rightarrow> v);
          (p1, sh1, result1) =
            (if char_at p 0 = CHR '':'' \<and> char_at p 1 \<noteq> CHR 0x00 then
               (let op = char_at p 1
                in case read_brace_body (drop 2 p) 0 [] of
                     (p2, body) \<Rightarrow>
                       if op = CHR ''-'' then
                         (p2, sh, result @ (if unset then body else value))
                       else if op = CHR ''='' then
                         (if unset
                          then (p2, env_set sh (Some varname) (Some body) False, result @ body)
                          else (p2, sh, result @ value))
                       else if op = CHR ''+'' then
                         (p2, sh, if \<not> unset then result @ body else result)
                       else if op = CHR ''?'' then
                         (if unset
                          then (p2, print_err sh (''vsh: '' @ varname @ '': '' @
                                  (if body = [] then ''parameter null or not set'' else body)
                                  @ [CHR 0x0A]), result)
                          else (p2, sh, result @ value))
                       else (p2, sh, result @ value))
             else (p, sh, result @ value))
      in (if char_at p1 0 = CHR ''}'' then tl p1 else p1, sh1, result1))"

lemma read_brace_body_length:
  "length (fst (read_brace_body p d b)) \<le> length p"
  by (induction p d b rule: read_brace_body.induct) (auto simp: le_SucI)

lemma expand_brace_length:
  "length (fst (expand_brace sh p r)) \<le> length p"
proof -
  let ?P = "\<lambda>c. c \<noteq> CHR ''}'' \<and> c \<noteq> CHR '':''"
  have a: "length (dropWhile ?P p) \<le> length p"
    by (rule length_dropWhile_le)
  have b: "length (fst (read_brace_body (drop 2 (dropWhile ?P p)) 0 [])) \<le> length p"
    using read_brace_body_length[of "drop 2 (dropWhile ?P p)" 0 "[]"] a by simp
  have c: "length (if char_at q 0 = CHR ''}'' then tl q else q) \<le> length p"
    if "length q \<le> length p" for q
    using that by (cases q) auto
  show ?thesis
    unfolding expand_brace_def Let_def
    using a b
    by (auto simp: case_prod_unfold intro!: c split: if_splits)
qed

text \<open>
  The loop of \<^verbatim>\<open>env_expand\<close>, on the rest of the input and the result buffer.  A positional
  parameter beyond the array expands to nothing here (the C code reads it only below
  \<^verbatim>\<open>pos_count\<close>).
\<close>

function env_expand_loop :: "Shell \<Rightarrow> string \<Rightarrow> string \<Rightarrow> Shell \<times> string" where
  "env_expand_loop sh [] result = (sh, result)"
| "env_expand_loop sh (c # cs) result =
     (if c \<noteq> CHR ''$'' then env_expand_loop sh cs (result @ [c])
      else
        (case cs of
           [] \<Rightarrow> (sh, result @ [CHR ''$''])
         | d # ds \<Rightarrow>
             if d = CHR ''$'' then env_expand_loop sh ds (result @ show_int (shell_pid sh))
             else if d = CHR ''?'' then env_expand_loop sh ds (result @ show_int (last_status sh))
             else if d = CHR ''#'' then env_expand_loop sh ds (result @ show_int (pos_count sh))
             else if d = CHR ''!'' then env_expand_loop sh ds result
             else if isdigit d then
               (let idx = int (of_char d) - 48
                in if idx = 0 then env_expand_loop sh ds (result @ ''vsh'')
                   else (case pos_params sh of
                           Some ps \<Rightarrow>
                             if idx \<le> pos_count sh
                             then env_expand_loop sh ds
                                    (result @ (if nat (idx - 1) < length ps
                                               then ps ! nat (idx - 1) else []))
                             else env_expand_loop sh ds result
                         | None \<Rightarrow> env_expand_loop sh ds result))
             else if d = CHR ''{'' then
               (case expand_brace sh ds result of
                  (p', sh', result') \<Rightarrow> env_expand_loop sh' p' result')
             else if isalpha d \<or> d = CHR ''_'' then
               (let is_var = (\<lambda>x. isalnum x \<or> x = CHR ''_'');
                    varname = takeWhile is_var (d # ds)
                in env_expand_loop sh (dropWhile is_var (d # ds))
                     (result @ (case env_get (env sh) varname of None \<Rightarrow> [] | Some v \<Rightarrow> v)))
             else env_expand_loop sh ds (result @ [CHR ''$'', d])))"
  by pat_completeness auto
termination
proof (relation "measure (\<lambda>(sh, p, r). length p)", goal_cases)
  case (11 sh c cs result d ds x y z u)
  then have "x = fst (expand_brace sh ds result)" and "cs = d # ds"
    by (metis fst_conv, simp)
  then show ?case
    using expand_brace_length[of sh ds result] by simp
next
  case (12 sh c cs result d ds x xa)
  then show ?case
    using length_dropWhile_le[of "\<lambda>x. isalnum x \<or> x = CHR ''_''" "d # ds"]
    by (auto simp: less_Suc_eq_le)
qed auto

definition env_expand :: "Shell \<Rightarrow> string option \<Rightarrow> Shell \<times> string" where
  "env_expand sh inp = (case inp of None \<Rightarrow> (sh, []) | Some s \<Rightarrow> env_expand_loop sh s [])"

subsection \<open>Tilde expansion\<close>

definition env_expand_tilde :: "World \<Rightarrow> Shell \<Rightarrow> string \<Rightarrow> string" where
  "env_expand_tilde w sh path =
     (if char_at path 0 \<noteq> CHR ''~'' then path
      else
        (let rest = tl path;
             var = (\<lambda>k. case env_get (env sh) k of None \<Rightarrow> [] | Some v \<Rightarrow> v)
         in if char_at rest 0 = CHR ''+'' \<and>
               (char_at rest 1 = CHR ''/'' \<or> char_at rest 1 = CHR 0x00) then
              (if char_at rest 1 = CHR ''/'' then var ''PWD'' @ tl rest else var ''PWD'')
            else if char_at rest 0 = CHR ''-'' \<and>
               (char_at rest 1 = CHR ''/'' \<or> char_at rest 1 = CHR 0x00) then
              (if char_at rest 1 = CHR ''/'' then var ''OLDPWD'' @ tl rest else var ''OLDPWD'')
            else if char_at rest 0 = CHR ''/'' \<or> char_at rest 0 = CHR 0x00 then
              (if char_at rest 0 = CHR ''/'' then var ''HOME'' @ rest else var ''HOME'')
            else
              (let username = takeWhile (\<lambda>c. c \<noteq> CHR ''/'') rest;
                   slash = dropWhile (\<lambda>c. c \<noteq> CHR ''/'') rest
               in case sys_getpwnam w (os sh) username of
                    None \<Rightarrow> path
                  | Some pw_dir \<Rightarrow> if slash \<noteq> [] then pw_dir @ slash else pw_dir)))"

subsection \<open>Assignments\<close>

definition env_parse_assignment :: "string option \<Rightarrow> (string \<times> string) option" where
  "env_parse_assignment str =
     (case str of
        None \<Rightarrow> None
      | Some s \<Rightarrow>
          let k = takeWhile (\<lambda>c. c \<noteq> CHR ''='') s;
              eq = dropWhile (\<lambda>c. c \<noteq> CHR ''='') s
          in if eq = [] \<or> k = [] then None
             else if \<not> isalpha (hd k) \<and> hd k \<noteq> CHR ''_'' then None
             else if \<not> list_all (\<lambda>c. isalnum c \<or> c = CHR ''_'') (tl k) then None
             else Some (k, tl eq))"

subsection \<open>Wildcards (wildcard.c)\<close>

fun wildcard_has_magic :: "string \<Rightarrow> bool" where
  "wildcard_has_magic [] = False"
| "wildcard_has_magic (c # cs) =
     (if c = CHR ''*'' \<or> c = CHR ''?'' \<or> c = CHR ''['' then True
      else if c = CHR 0x5C then (case cs of [] \<Rightarrow> False | d # ds \<Rightarrow> wildcard_has_magic ds)
      else wildcard_has_magic cs)"

text \<open>\<^verbatim>\<open>strcmp(a, b) <= 0\<close>, the order of \<^verbatim>\<open>qsort\<close> in \<^verbatim>\<open>wildcard_expand\<close>.\<close>

fun strcmp_le :: "string \<Rightarrow> string \<Rightarrow> bool" where
  "strcmp_le [] ys = True"
| "strcmp_le (x # xs) [] = False"
| "strcmp_le (x # xs) (y # ys) =
     (if x = y then strcmp_le xs ys else (of_char x :: nat) < of_char y)"

fun insert_path :: "string \<Rightarrow> string list \<Rightarrow> string list" where
  "insert_path x [] = [x]"
| "insert_path x (y # ys) = (if strcmp_le x y then x # y # ys else y # insert_path x ys)"

definition sort_paths :: "string list \<Rightarrow> string list" where
  "sort_paths xs = foldr insert_path xs []"

definition strip_mark :: "string \<Rightarrow> string" where
  "strip_mark s = (if length s > 1 \<and> last s = CHR ''/'' then butlast s else s)"

text \<open>
  \<^verbatim>\<open>wildcard_expand\<close>: the matches of \<^verbatim>\<open>glob\<close>, the mark of a directory stripped, sorted.
  The empty list is the \<^verbatim>\<open>NULL\<close> result with a count of 0.
\<close>

definition wildcard_expand :: "World \<Rightarrow> Shell \<Rightarrow> string \<Rightarrow> string list" where
  "wildcard_expand w sh pattern =
     (if \<not> wildcard_has_magic pattern then []
      else sort_paths (map strip_mark (sys_glob w (os sh) pattern)))"

section \<open>Builtin commands (builtins.c, builtins/echo.c)\<close>

definition builtin_table :: "string list" where
  "builtin_table =
     [''cd'', ''exit'', ''help'', ''export'', ''unset'', ''alias'', ''unalias'', ''history'',
      ''jobs'', ''fg'', ''bg'', ''source'', ''.'', ''sysinfo'', ''httpfetch'', ''calc'',
      ''watch'', ''pushd'', ''popd'', ''dirs'', ''colors'', ''pwd'', ''echo'', ''type'',
      ''return'', ''local'']"

definition builtins_is_builtin :: "string \<Rightarrow> bool" where
  "builtins_is_builtin name = (name \<in> set builtin_table)"

subsection \<open>echo\<close>

definition is_octal :: "char \<Rightarrow> bool" where
  "is_octal c = (48 \<le> (of_char c :: nat) \<and> (of_char c :: nat) \<le> 55)"

definition is_hex :: "char \<Rightarrow> bool" where
  "is_hex c = (isdigit c \<or> (97 \<le> (of_char c :: nat) \<and> (of_char c :: nat) \<le> 102) \<or>
               (65 \<le> (of_char c :: nat) \<and> (of_char c :: nat) \<le> 70))"

definition hex_val :: "char \<Rightarrow> nat" where
  "hex_val c = (if isdigit c then of_char c - 48
                else if 97 \<le> (of_char c :: nat) then of_char c - 97 + 10
                else of_char c - 65 + 10)"

text \<open>
  \<^verbatim>\<open>print_escape\<close> gets the input from the character after the backslash.  It returns
  whether to go on, what it printed, and the input from the last character it used (the
  caller steps over that one).
\<close>

definition print_escape :: "string \<Rightarrow> bool \<times> string \<times> string" where
  "print_escape p =
     (let c = char_at p 0
      in if c = CHR ''n'' then (True, [CHR 0x0A], p)
         else if c = CHR ''t'' then (True, [CHR 0x09], p)
         else if c = CHR 0x5C then (True, [CHR 0x5C], p)
         else if c = CHR ''a'' then (True, [CHR 0x07], p)
         else if c = CHR ''b'' then (True, [CHR 0x08], p)
         else if c = CHR ''e'' then (True, [CHR 0x1B], p)
         else if c = CHR ''f'' then (True, [CHR 0x0C], p)
         else if c = CHR ''r'' then (True, [CHR 0x0D], p)
         else if c = CHR ''v'' then (True, [CHR 0x0B], p)
         else if c = CHR ''c'' then (False, [], p)
         else if c = CHR ''0'' then
           (let ds = takeWhile is_octal (take 3 (tl p));
                v = foldl (\<lambda>v d. v * 8 + ((of_char d :: nat) - 48)) 0 ds
            in (True, [char_of (v mod 256)], drop (length ds) p))
         else if c = CHR ''x'' then
           (let ds = takeWhile is_hex (take 2 (tl p));
                v = foldl (\<lambda>v d. v * 16 + hex_val d) 0 ds
            in (True, [char_of (v mod 256)], drop (length ds) p))
         else (True, [CHR 0x5C, c], p))"

lemma print_escape_length:
  "length (snd (snd (print_escape p))) \<le> length p"
  by (simp add: print_escape_def Let_def)

function echo_escapes :: "string \<Rightarrow> string \<Rightarrow> bool \<times> string" where
  "echo_escapes [] printed = (True, printed)"
| "echo_escapes (c # cs) printed =
     (if c = CHR 0x5C \<and> cs \<noteq> [] then
        (case print_escape cs of
           (keep_going, esc, p') \<Rightarrow>
             if keep_going then echo_escapes (tl p') (printed @ esc)
             else (False, printed @ esc))
      else echo_escapes cs (printed @ [c]))"
  by pat_completeness auto
termination
proof (relation "measure (\<lambda>(s, printed). length s)", goal_cases)
  case (2 c cs printed x y xa ya)
  then have "ya = snd (snd (print_escape cs))"
    by (metis snd_conv)
  then show ?case
    using print_escape_length[of cs] by simp
qed auto

text \<open>The leading flags: the arguments left, \<^verbatim>\<open>newline\<close> and \<^verbatim>\<open>escapes\<close>.\<close>

definition echo_flag :: "bool \<times> bool \<Rightarrow> char \<Rightarrow> bool \<times> bool" where
  "echo_flag f c =
     (if c = CHR ''n'' then (False, snd f)
      else if c = CHR ''e'' then (fst f, True)
      else if c = CHR ''E'' then (fst f, False)
      else f)"

fun echo_flags :: "string list \<Rightarrow> bool \<times> bool \<Rightarrow> string list \<times> bool \<times> bool" where
  "echo_flags [] f = ([], f)"
| "echo_flags (a # rest) f =
     (if char_at a 0 \<noteq> CHR ''-'' \<or> char_at a 1 = CHR 0x00 then (a # rest, f)
      else if \<not> list_all (\<lambda>c. c = CHR ''n'' \<or> c = CHR ''e'' \<or> c = CHR ''E'') (tl a)
      then (a # rest, f)
      else echo_flags rest (foldl echo_flag f (tl a)))"

fun echo_args :: "string list \<Rightarrow> bool \<Rightarrow> bool \<Rightarrow> string \<Rightarrow> bool \<times> string" where
  "echo_args [] escapes first printed = (True, printed)"
| "echo_args (a # rest) escapes first printed =
     (let printed1 = (if first then printed else printed @ '' '')
      in if escapes then
           (case echo_escapes a printed1 of
              (keep_going, printed2) \<Rightarrow>
                if keep_going then echo_args rest escapes False printed2
                else (False, printed2))
         else echo_args rest escapes False (printed1 @ a))"

definition builtin_echo :: "Shell \<Rightarrow> string list \<Rightarrow> int \<times> Shell" where
  "builtin_echo sh args =
     (case echo_flags (tl args) (True, False) of
        (rest, newline, escapes) \<Rightarrow>
          (case echo_args rest escapes True [] of
             (keep_going, printed) \<Rightarrow>
               (0, print_out sh (if keep_going \<and> newline then printed @ [CHR 0x0A]
                                  else printed))))"

text \<open>
  \<^verbatim>\<open>builtins_execute\<close> looks the name up in the table and calls the handler.  The handler
  of \<^verbatim>\<open>echo\<close> is the function above; the others are the world's.
\<close>

definition builtins_execute :: "World \<Rightarrow> Shell \<Rightarrow> string list \<Rightarrow> int \<times> Shell" where
  "builtins_execute w sh args =
     (if \<not> builtins_is_builtin (hd args) then (- 1, sh)
      else if hd args = ''echo'' then builtin_echo sh args
      else builtin_handler w (hd args) sh args)"

section \<open>Redirections (executor.c)\<close>

text \<open>
  Redirections are applied in the child, after the fork.  The child is a \<open>Process\<close>: its
  descriptor table (entry \<open>i\<close> is what descriptor \<open>i\<close> is open on, a name and the flags of
  the open), what it has written as diagnostics, and the state outside.  \<^verbatim>\<open>open\<close> takes
  the lowest free descriptor; \<^verbatim>\<open>dup2\<close> fails on a source that is not open and on a target
  outside the table's limit.  The target of a redirection is the text of a WORD token;
  with a \<^verbatim>\<open>NULL\<close> target \<^verbatim>\<open>open\<close> fails and \<^verbatim>\<open>atoi\<close> is read as 0.
\<close>

record Process =
  fd_table :: "(string \<times> OpenFlags) option list"
  diag_text :: string
  p_os :: nat

definition fd_entry :: "Process \<Rightarrow> int \<Rightarrow> (string \<times> OpenFlags) option" where
  "fd_entry pr fd =
     (if 0 \<le> fd \<and> nat fd < length (fd_table pr) then fd_table pr ! nat fd else None)"

definition fd_store :: "Process \<Rightarrow> nat \<Rightarrow> (string \<times> OpenFlags) option \<Rightarrow> Process" where
  "fd_store pr fd e =
     pr\<lparr>fd_table := (fd_table pr @ replicate (Suc fd - length (fd_table pr)) None)[fd := e]\<rparr>"

definition c_open :: "World \<Rightarrow> Process \<Rightarrow> string option \<Rightarrow> OpenFlags \<Rightarrow> int \<times> Process" where
  "c_open w pr path flags =
     (case path of
        None \<Rightarrow> (- 1, pr)
      | Some f \<Rightarrow>
          (case sys_open w (p_os pr) f flags of
             (opened, os') \<Rightarrow>
               let fd = length (takeWhile (\<lambda>e. e \<noteq> None) (fd_table pr))
               in if opened \<and> fd < sys_fd_limit w
                  then (int fd, fd_store (pr\<lparr>p_os := os'\<rparr>) fd (Some (f, flags)))
                  else (- 1, pr\<lparr>p_os := os'\<rparr>)))"

definition c_dup2 :: "World \<Rightarrow> Process \<Rightarrow> int \<Rightarrow> int \<Rightarrow> int \<times> Process" where
  "c_dup2 w pr src fd =
     (if fd_entry pr src = None \<or> fd < 0 \<or> nat fd \<ge> sys_fd_limit w then (- 1, pr)
      else if src = fd then (fd, pr)
      else (fd, fd_store pr (nat fd) (fd_entry pr src)))"

definition c_close :: "Process \<Rightarrow> int \<Rightarrow> Process" where
  "c_close pr fd = (if fd_entry pr fd = None then pr else fd_store pr (nat fd) None)"

definition p_print :: "Process \<Rightarrow> string \<Rightarrow> Process" where
  "p_print pr s = pr\<lparr>diag_text := diag_text pr @ s\<rparr>"

definition p_perror :: "World \<Rightarrow> Process \<Rightarrow> string \<Rightarrow> Process" where
  "p_perror w pr s = p_print pr (s @ '': '' @ sys_strerror w (p_os pr) @ [CHR 0x0A])"

text \<open>\<^verbatim>\<open>atoi\<close>: white space, a sign, digits (no overflow of \<^verbatim>\<open>int\<close> here).\<close>

definition atoi :: "string \<Rightarrow> int" where
  "atoi s =
     (let s1 = dropWhile isspace s;
          s2 = (if char_at s1 0 = CHR ''-'' \<or> char_at s1 0 = CHR ''+'' then tl s1 else s1);
          n = foldl (\<lambda>v d. v * 10 + (int (of_char d) - 48)) 0 (takeWhile isdigit s2)
      in if char_at s1 0 = CHR ''-'' then - n else n)"

text \<open>
  The cases \<^verbatim>\<open>REDIR_INPUT\<close>, \<^verbatim>\<open>REDIR_OUTPUT\<close> and \<^verbatim>\<open>REDIR_APPEND\<close> of the \<^verbatim>\<open>switch\<close> are the
  same code with other flags: open the target, \<^verbatim>\<open>dup2\<close> it onto the descriptor, close it.
\<close>

definition open_onto ::
  "World \<Rightarrow> Process \<Rightarrow> string option \<Rightarrow> int \<Rightarrow> OpenFlags \<Rightarrow> bool \<times> Process" where
  "open_onto w pr target fd flags =
     (case c_open w pr target flags of
        (src, pr1) \<Rightarrow>
          if src < 0 then
            (False, p_print pr1 (''vsh: '' @ (case target of None \<Rightarrow> ''(null)'' | Some t \<Rightarrow> t)
                                 @ '': '' @ sys_strerror w (p_os pr1) @ [CHR 0x0A]))
          else
            (case c_dup2 w pr1 src fd of
               (r, pr2) \<Rightarrow>
                 if r < 0 then (False, c_close (p_perror w pr2 ''vsh: dup2'') src)
                 else (True, c_close pr2 src)))"

definition dup_onto :: "World \<Rightarrow> Process \<Rightarrow> string option \<Rightarrow> int \<Rightarrow> bool \<times> Process" where
  "dup_onto w pr target fd =
     (case c_dup2 w pr (case target of None \<Rightarrow> 0 | Some t \<Rightarrow> atoi t) fd of
        (r, pr1) \<Rightarrow> if r < 0 then (False, p_perror w pr1 ''vsh: dup2'') else (True, pr1))"

text \<open>One turn of the loop of \<^verbatim>\<open>executor_apply_redirections\<close>; \<open>False\<close> is its \<^verbatim>\<open>return -1\<close>.\<close>

definition apply_redirection :: "World \<Rightarrow> Process \<Rightarrow> Redirection \<Rightarrow> bool \<times> Process" where
  "apply_redirection w pr r =
     (case rd_type r of
        REDIR_INPUT \<Rightarrow>
          open_onto w pr (rd_target r) (if rd_fd r < 0 then 0 else rd_fd r) O_RDONLY
      | REDIR_OUTPUT \<Rightarrow>
          open_onto w pr (rd_target r) (if rd_fd r < 0 then 1 else rd_fd r) O_WRONLY_CREAT_TRUNC
      | REDIR_APPEND \<Rightarrow>
          open_onto w pr (rd_target r) (if rd_fd r < 0 then 1 else rd_fd r) O_WRONLY_CREAT_APPEND
      | REDIR_DUP_OUT \<Rightarrow> dup_onto w pr (rd_target r) (if rd_fd r < 0 then 1 else rd_fd r)
      | REDIR_DUP_IN \<Rightarrow> dup_onto w pr (rd_target r) (if rd_fd r < 0 then 0 else rd_fd r)
      | REDIR_HEREDOC \<Rightarrow>
          (True, p_print pr (''vsh: heredoc: not yet implemented'' @ [CHR 0x0A])))"

text \<open>The loop walks the chain from its head.\<close>

fun executor_apply_redirections ::
  "World \<Rightarrow> Redirection list \<Rightarrow> Process \<Rightarrow> int \<times> Process" where
  "executor_apply_redirections w [] pr = (0, pr)"
| "executor_apply_redirections w (r # rs) pr =
     (case apply_redirection w pr r of
        (applied, pr1) \<Rightarrow>
          if applied then executor_apply_redirections w rs pr1 else (- 1, pr1))"

section \<open>Executor (executor.c, pipeline.c)\<close>

text \<open>
  A function of the executor returns the status and the shell.  \<^verbatim>\<open>fork\<close> is the world's:
  the model follows the parent, for which \<^verbatim>\<open>fork\<close> returns the child's pid or a negative
  number.  What the child of a simple command does up to \<^verbatim>\<open>execve\<close> is \<open>exec_command_child\<close>;
  the parent sees of it the status that waiting for the job returns.
\<close>

subsection \<open>Simple commands\<close>

definition expand_word :: "World \<Rightarrow> Shell \<Rightarrow> string option \<Rightarrow> Shell \<times> string list" where
  "expand_word w sh word =
     (case env_expand sh word of
        (sh1, e0) \<Rightarrow>
          let expanded = (if char_at e0 0 = CHR ''~'' then env_expand_tilde w sh1 e0 else e0);
              matches = (if wildcard_has_magic expanded then wildcard_expand w sh1 expanded
                         else [])
          in (sh1, if matches \<noteq> [] then matches else [expanded]))"

fun expand_words ::
  "World \<Rightarrow> Shell \<Rightarrow> string option list \<Rightarrow> string list \<Rightarrow> Shell \<times> string list" where
  "expand_words w sh [] args = (sh, args)"
| "expand_words w sh (x # xs) args =
     (case expand_word w sh x of (sh1, ws) \<Rightarrow> expand_words w sh1 xs (args @ ws))"

text \<open>The loop over \<^verbatim>\<open>cmd->assignments\<close>, with the flag that \<^verbatim>\<open>env_set\<close> gets.\<close>

fun apply_assignments :: "Shell \<Rightarrow> string option list \<Rightarrow> bool \<Rightarrow> Shell" where
  "apply_assignments sh [] exported = sh"
| "apply_assignments sh (a # rest) exported =
     (case env_parse_assignment a of
        None \<Rightarrow> apply_assignments sh rest exported
      | Some (key, val) \<Rightarrow>
          (case env_expand sh (Some val) of
             (sh1, exp_val) \<Rightarrow>
               apply_assignments (env_set sh1 (Some key) (Some exp_val) exported) rest exported))"

definition job_wait_foreground :: "World \<Rightarrow> Shell \<Rightarrow> int option \<Rightarrow> int \<times> Shell" where
  "job_wait_foreground w sh job =
     (case job of
        None \<Rightarrow> (- 1, sh)
      | Some j \<Rightarrow>
          (case sys_wait_foreground w (os sh) j of
             (status, msg, os') \<Rightarrow> (status, (print_err sh msg)\<lparr>os := os'\<rparr>)))"

definition job_add :: "World \<Rightarrow> Shell \<Rightarrow> int \<Rightarrow> string \<Rightarrow> bool \<Rightarrow> int option \<times> Shell" where
  "job_add w sh pgid command foreground =
     (case sys_job_add w (os sh) pgid command foreground of
        (job, os') \<Rightarrow> (job, sh\<lparr>os := os'\<rparr>))"

definition c_fork :: "World \<Rightarrow> Shell \<Rightarrow> int \<times> Shell" where
  "c_fork w sh = (case sys_fork w (os sh) of (pid, os') \<Rightarrow> (pid, sh\<lparr>os := os'\<rparr>))"

definition executor_exec_command :: "World \<Rightarrow> Shell \<Rightarrow> CommandNode \<Rightarrow> int \<times> Shell" where
  "executor_exec_command w sh cmd =
     (if argv cmd = [] \<and> assignments cmd \<noteq> [] then
        (0, (apply_assignments sh (assignments cmd) False)\<lparr>last_status := 0\<rparr>)
      else
        (case expand_words w sh (argv cmd) [] of
           (sh1, args) \<Rightarrow>
             if args = [] then (0, sh1\<lparr>last_status := 0\<rparr>)
             else if builtins_is_builtin (hd args) then
               (case builtins_execute w sh1 args of
                  (status, sh2) \<Rightarrow> (status, sh2\<lparr>last_status := status\<rparr>))
             else
               (case c_fork w sh1 of
                  (pid, sh2) \<Rightarrow>
                    if pid < 0 then (1, (perror_sh w sh2 ''vsh: fork'')\<lparr>last_status := 1\<rparr>)
                    else
                      (case job_add w sh2 pid (hd args) True of
                         (job, sh3) \<Rightarrow>
                           (case job_wait_foreground w sh3 job of
                              (status, sh4) \<Rightarrow> (status, sh4\<lparr>last_status := status\<rparr>))))))"

text \<open>
  The child of \<open>executor_exec_command\<close>, from the assignments on: \<open>Some n\<close> is \<^verbatim>\<open>_exit(n)\<close>,
  \<open>None\<close> is an \<^verbatim>\<open>execve\<close> (with the exported entries of the table) or an \<^verbatim>\<open>execvp\<close> (with the
  process environment) that succeeded.  The world's \<open>sys_exec\<close> is the two calls; it gives
  the \<^verbatim>\<open>errno\<close> of the second when both fail.  \<^verbatim>\<open>ENOENT\<close> is 2.
\<close>

definition exec_command_child ::
  "World \<Rightarrow> Shell \<Rightarrow> Process \<Rightarrow> CommandNode \<Rightarrow> string list \<Rightarrow> int option \<times> Shell \<times> Process" where
  "exec_command_child w sh pr cmd args =
     (let sh1 = apply_assignments sh (assignments cmd) True
      in case executor_apply_redirections w (redirs cmd) pr of
           (r, pr1) \<Rightarrow>
             if r < 0 then (Some 1, sh1, pr1)
             else
               (case sys_exec w (p_os pr1) args (env_build_envp (env sh1)) (environ sh1) of
                  None \<Rightarrow> (None, sh1, pr1)
                | Some err \<Rightarrow>
                    (Some (if err = 2 then 127 else 126), sh1,
                     p_print pr1 (''vsh: '' @ hd args @ '': '' @ sys_strerror w (p_os pr1)
                                  @ [CHR 0x0A]))))"

subsection \<open>Compound nodes\<close>

text \<open>
  The functions that call \<^verbatim>\<open>executor_execute\<close> get it as the argument \<open>ex\<close>.  A call that
  does not return is \<open>None\<close>.
\<close>

type_synonym exec_fn = "Shell \<Rightarrow> ASTNode option \<Rightarrow> (int \<times> Shell) option"

definition pipeline_execute ::
  "World \<Rightarrow> exec_fn \<Rightarrow> Shell \<Rightarrow> ASTNode option list \<Rightarrow> bool \<Rightarrow> (int \<times> Shell) option" where
  "pipeline_execute w ex sh commands negated =
     (if length commands = 1 then
        do {
          (status, sh1) \<leftarrow> ex sh (hd commands);
          let status1 = (if negated then (if status = 0 then 1 else 0) else status);
          Some (status1, sh1\<lparr>last_status := status1\<rparr>)
        }
      else
        (case sys_pipeline_start w (os sh) commands of
           (started, msg, os') \<Rightarrow>
             let sh1 = (print_err sh msg)\<lparr>os := os'\<rparr>
             in case started of
                  None \<Rightarrow> Some (1, sh1)
                | Some pgid \<Rightarrow>
                    (case job_add w sh1 pgid ''(pipeline)'' True of
                       (job, sh2) \<Rightarrow>
                         (case job_wait_foreground w sh2 job of
                            (status, sh3) \<Rightarrow>
                              let status1 = (if negated then (if status = 0 then 1 else 0)
                                             else status)
                              in Some (status1, sh3\<lparr>last_status := status1\<rparr>)))))"

definition exec_and ::
  "exec_fn \<Rightarrow> Shell \<Rightarrow> ASTNode option \<Rightarrow> ASTNode option \<Rightarrow> (int \<times> Shell) option" where
  "exec_and ex sh left right =
     do {
       (status, sh1) \<leftarrow> ex sh left;
       if status = 0 then ex sh1 right else Some (status, sh1)
     }"

definition exec_or ::
  "exec_fn \<Rightarrow> Shell \<Rightarrow> ASTNode option \<Rightarrow> ASTNode option \<Rightarrow> (int \<times> Shell) option" where
  "exec_or ex sh left right =
     do {
       (status, sh1) \<leftarrow> ex sh left;
       if status \<noteq> 0 then ex sh1 right else Some (status, sh1)
     }"

definition exec_sequence ::
  "exec_fn \<Rightarrow> Shell \<Rightarrow> ASTNode option \<Rightarrow> ASTNode option \<Rightarrow> (int \<times> Shell) option" where
  "exec_sequence ex sh left right =
     do {
       (status, sh1) \<leftarrow> ex sh left;
       ex sh1 right
     }"

definition exec_background :: "World \<Rightarrow> Shell \<Rightarrow> ASTNode option \<Rightarrow> int \<times> Shell" where
  "exec_background w sh child =
     (case c_fork w sh of
        (pid, sh1) \<Rightarrow>
          if pid < 0 then (1, perror_sh w sh1 ''vsh: fork'')
          else
            (case job_add w sh1 pid ''(background)'' False of
               (job, sh2) \<Rightarrow>
                 (0, case job of
                       None \<Rightarrow> sh2
                     | Some job_id \<Rightarrow>
                         print_err sh2 (''['' @ show_int job_id @ ''] '' @ show_int pid
                                        @ [CHR 0x0A]))))"

definition exec_negate :: "exec_fn \<Rightarrow> Shell \<Rightarrow> ASTNode option \<Rightarrow> (int \<times> Shell) option" where
  "exec_negate ex sh child =
     do {
       (status, sh1) \<leftarrow> ex sh child;
       Some (if status = 0 then 1 else 0, sh1)
     }"

definition exec_subshell :: "World \<Rightarrow> Shell \<Rightarrow> ASTNode option \<Rightarrow> int \<times> Shell" where
  "exec_subshell w sh child =
     (case c_fork w sh of
        (pid, sh1) \<Rightarrow>
          if pid < 0 then (1, perror_sh w sh1 ''vsh: fork'')
          else
            (case job_add w sh1 pid ''(subshell)'' True of
               (job, sh2) \<Rightarrow> job_wait_foreground w sh2 job))"

definition exec_if ::
  "exec_fn \<Rightarrow> Shell \<Rightarrow> ASTNode option \<Rightarrow> ASTNode option \<Rightarrow> ASTNode option \<Rightarrow>
   (int \<times> Shell) option" where
  "exec_if ex sh condition then_body else_body =
     do {
       (cond, sh1) \<leftarrow> ex sh condition;
       if cond = 0 then ex sh1 then_body
       else if else_body \<noteq> None then ex sh1 else_body
       else Some (0, sh1)
     }"

text \<open>The loop of \<^verbatim>\<open>exec_while\<close>; the first argument bounds the number of its turns.\<close>

fun exec_while_loop ::
  "nat \<Rightarrow> exec_fn \<Rightarrow> Shell \<Rightarrow> ASTNode option \<Rightarrow> ASTNode option \<Rightarrow> int \<Rightarrow> (int \<times> Shell) option" where
  "exec_while_loop 0 ex sh condition body status = None"
| "exec_while_loop (Suc k) ex sh condition body status =
     do {
       (cond, sh1) \<leftarrow> ex sh condition;
       if cond = 0 then
         do {
           (status1, sh2) \<leftarrow> ex sh1 body;
           exec_while_loop k ex sh2 condition body status1
         }
       else Some (status, sh1)
     }"

fun exec_for_matches ::
  "exec_fn \<Rightarrow> Shell \<Rightarrow> string option \<Rightarrow> ASTNode option \<Rightarrow> string list \<Rightarrow> int \<Rightarrow>
   (int \<times> Shell) option" where
  "exec_for_matches ex sh varname body [] status = Some (status, sh)"
| "exec_for_matches ex sh varname body (m # ms) status =
     do {
       (status1, sh1) \<leftarrow> ex (env_set sh varname (Some m) False) body;
       exec_for_matches ex sh1 varname body ms status1
     }"

fun exec_for_words ::
  "World \<Rightarrow> exec_fn \<Rightarrow> Shell \<Rightarrow> string option \<Rightarrow> ASTNode option \<Rightarrow> string option list \<Rightarrow> int \<Rightarrow>
   (int \<times> Shell) option" where
  "exec_for_words w ex sh varname body [] status = Some (status, sh)"
| "exec_for_words w ex sh varname body (x # xs) status =
     (case env_expand sh x of
        (sh1, w0) \<Rightarrow>
          let word = (if char_at w0 0 = CHR ''~'' then env_expand_tilde w sh1 w0 else w0);
              matches = (if wildcard_has_magic word then wildcard_expand w sh1 word else [])
          in if matches \<noteq> [] then
               do {
                 (status1, sh2) \<leftarrow> exec_for_matches ex sh1 varname body matches status;
                 exec_for_words w ex sh2 varname body xs status1
               }
             else
               do {
                 (status1, sh2) \<leftarrow> ex (env_set sh1 varname (Some word) False) body;
                 exec_for_words w ex sh2 varname body xs status1
               })"

definition exec_function :: "World \<Rightarrow> Shell \<Rightarrow> string option \<Rightarrow> ASTNode option \<Rightarrow> int \<times> Shell" where
  "exec_function w sh name body =
     (let key = take 255 (''func:'' @ (case name of None \<Rightarrow> ''(null)'' | Some n \<Rightarrow> n));
          ptr_buf = take 31 (sys_ptr w body)
      in (0, env_set sh (Some key) (Some ptr_buf) False))"

subsection \<open>The dispatcher\<close>

text \<open>
  \<^verbatim>\<open>executor_execute\<close>, with a bound on the depth of its recursion and on the turns of a
  \<^verbatim>\<open>while\<close> loop; \<open>None\<close> when the bound is used up.
\<close>

fun executor_execute :: "World \<Rightarrow> nat \<Rightarrow> Shell \<Rightarrow> ASTNode option \<Rightarrow> (int \<times> Shell) option" where
  "executor_execute w n sh None = Some (0, sh)"
| "executor_execute w 0 sh (Some node) = None"
| "executor_execute w (Suc n) sh (Some node) =
     do {
       (status, sh1) \<leftarrow>
         (case node of
            NODE_COMMAND cmd \<Rightarrow> Some (executor_exec_command w sh cmd)
          | NODE_PIPELINE commands negated \<Rightarrow>
              pipeline_execute w (executor_execute w n) sh commands negated
          | NODE_AND left right \<Rightarrow> exec_and (executor_execute w n) sh left right
          | NODE_OR left right \<Rightarrow> exec_or (executor_execute w n) sh left right
          | NODE_SEQUENCE left right \<Rightarrow> exec_sequence (executor_execute w n) sh left right
          | NODE_BACKGROUND child \<Rightarrow> Some (exec_background w sh child)
          | NODE_NEGATE child \<Rightarrow> exec_negate (executor_execute w n) sh child
          | NODE_SUBSHELL child \<Rightarrow> Some (exec_subshell w sh child)
          | NODE_IF condition then_body else_body \<Rightarrow>
              exec_if (executor_execute w n) sh condition then_body else_body
          | NODE_WHILE condition body \<Rightarrow>
              exec_while_loop n (executor_execute w n) sh condition body 0
          | NODE_FOR varname words body \<Rightarrow>
              exec_for_words w (executor_execute w n) sh varname body words 0
          | NODE_FUNCTION name body \<Rightarrow> Some (exec_function w sh name body)
          | NODE_BLOCK child \<Rightarrow> executor_execute w n sh child);
       Some (status, sh1\<lparr>last_status := status\<rparr>)
     }"

subsection \<open>One line (shell.c)\<close>

text \<open>
  \<^verbatim>\<open>shell_exec_line\<close> from the lexing on: its argument is the line after the history and
  alias expansion, which is not empty.  The bound \<open>n\<close> is that of the parser and of the
  executor.
\<close>

definition shell_exec_expanded :: "World \<Rightarrow> nat \<Rightarrow> Shell \<Rightarrow> string \<Rightarrow> (int \<times> Shell) option" where
  "shell_exec_expanded w n sh aliased =
     (case lexer_tokenize (lexer_init (Some aliased)) of
        (toks, lx) \<Rightarrow>
          (case error lx of
             Some msg \<Rightarrow>
               Some (2, (print_err sh (''vsh: syntax error: '' @ msg @ [CHR 0x0A]))
                          \<lparr>last_status := 2\<rparr>)
           | None \<Rightarrow>
               do {
                 (ast, p) \<leftarrow> parser_parse n (parser_init toks);
                 if had_error p \<or> ast = None then
                   Some (2, (print_err sh (''vsh: parse error: '' @
                                (case perror p of None \<Rightarrow> ''unexpected token'' | Some msg \<Rightarrow> msg)
                                @ [CHR 0x0A]))\<lparr>last_status := 2\<rparr>)
                 else
                   do {
                     (status, sh1) \<leftarrow> executor_execute w n sh ast;
                     Some (status, sh1\<lparr>last_status := status\<rparr>)
                   }
               }))"

section \<open>Properties of the arena\<close>

text \<open>
  What every arena reachable from \<^verbatim>\<open>arena_create_sized\<close> satisfies: the chain is not
  empty, \<^verbatim>\<open>current\<close> points into it, and the head page is the one created first.
\<close>

definition arena_inv :: "size_t \<Rightarrow> Arena \<Rightarrow> bool" where
  "arena_inv psz a = (pages a \<noteq> [] \<and> current a < length (pages a) \<and> size_pg (hd (pages a)) = psz)"

lemma arena_alloc_inv:
  assumes "arena_inv psz a" "arena_alloc ok (Some a) sz = (p, r)"
  shows "\<exists>a'. r = Some a' \<and> arena_inv psz a'"
  using assms
  by (auto simp: arena_inv_def Let_def page_new_def hd_conv_nth nth_list_update nth_append
      split: if_splits option.splits)

lemma arena_alloc_None: "arena_alloc ok None sz = (None, None)"
  by simp

lemma arena_allocs_None: "arena_allocs None reqs = None"
  by (induction reqs) (auto simp: arena_allocs_def)

lemma arena_allocs_inv:
  "arena_inv psz a \<Longrightarrow> \<exists>a'. arena_allocs (Some a) reqs = Some a' \<and> arena_inv psz a'"
proof (induction reqs arbitrary: a)
  case Nil
  then show ?case by (simp add: arena_allocs_def)
next
  case (Cons r reqs)
  obtain sz ok where r: "r = (sz, ok)" by (cases r)
  obtain p q where pq: "arena_alloc ok (Some a) sz = (p, q)" by (cases "arena_alloc ok (Some a) sz")
  from arena_alloc_inv[OF Cons.prems pq] obtain a1 where a1: "q = Some a1" "arena_inv psz a1" by blast
  have "arena_allocs (Some a) (r # reqs) = arena_allocs (Some a1) reqs"
    using pq a1 r by (simp add: arena_allocs_def)
  with Cons.IH[OF a1(2)] show ?case by simp
qed

lemma arena_create_inv:
  "arena_create_sized ma mp psz = Some a \<Longrightarrow> arena_inv psz a"
  by (auto simp: arena_create_sized_def page_new_def arena_inv_def split: if_splits option.splits)

text \<open>
  Claim C9.  Take any arena made by \<^verbatim>\<open>arena_create_sized\<close> and any sequence of allocation
  requests on it (each may or may not get memory from \<^verbatim>\<open>malloc\<close>).  Then \<^verbatim>\<open>arena_reset\<close>
  leaves exactly one page, the first one with its \<^verbatim>\<open>used\<close> count back at 0, hands every
  other page to \<^verbatim>\<open>free\<close>, and \<^verbatim>\<open>arena_bytes_used\<close> is 0 right afterwards.  (A failed creation
  gives the \<^verbatim>\<open>NULL\<close> arena, on which reset does nothing and the count is 0.)
\<close>

theorem arena_reset_retains_first_page:
  "(case arena_allocs (arena_create_sized ma mp psz) reqs of
      None \<Rightarrow> arena_reset None = (None, []) \<and> arena_bytes_used None = 0
    | Some a \<Rightarrow>
        pages a \<noteq> [] \<and>
        arena_reset (Some a) =
          (Some (a\<lparr>pages := [\<lparr>size_pg = psz, used = 0\<rparr>], current := 0,
                     total_allocated := 0, total_pages := 1\<rparr>),
           tl (pages a)) \<and>
        arena_bytes_used (fst (arena_reset (Some a))) = 0)"
proof (cases "arena_create_sized ma mp psz")
  case None
  then show ?thesis by (simp add: arena_allocs_None)
next
  case (Some a0)
  from arena_allocs_inv[OF arena_create_inv[OF Some], of reqs]
  obtain a where a: "arena_allocs (Some a0) reqs = Some a" "arena_inv psz a" by blast
  then obtain h rest where hr: "pages a = h # rest" "size_pg h = psz"
    by (cases "pages a") (auto simp: arena_inv_def)
  have "h\<lparr>used := 0\<rparr> = \<lparr>size_pg = psz, used = 0\<rparr>" using hr(2) by simp
  then show ?thesis using Some a hr by simp
qed

theorem arena_reset_retains_first_page_witness:
  "arena_allocs (arena_create_sized True True 16) [(8, True), (16, True), (100, True)]
     = Some \<lparr>pages = [\<lparr>size_pg = 16, used = 8\<rparr>, \<lparr>size_pg = 16, used = 16\<rparr>, \<lparr>size_pg = 104, used = 104\<rparr>],
              current = 2, page_size = 16, total_allocated = 128, total_pages = 3\<rparr>
   \<and> arena_reset (arena_allocs (arena_create_sized True True 16) [(8, True), (16, True), (100, True)])
     = (Some \<lparr>pages = [\<lparr>size_pg = 16, used = 0\<rparr>], current = 0, page_size = 16,
              total_allocated = 0, total_pages = 1\<rparr>,
        [\<lparr>size_pg = 16, used = 16\<rparr>, \<lparr>size_pg = 104, used = 104\<rparr>])"
  using arena_reset_retains_first_page [where ma = True and mp = True and psz = 16 and reqs = "[(8, True), (16, True), (100, True)]"]
  by (simp add: arena_allocs_def arena_create_sized_def page_new_def align_up_def ARENA_ALIGNMENT_def Let_def)

section \<open>Properties of alias expansion\<close>

lemma expand_aliases_loop_log:
  "expand_aliases_loop tbl depth cur log = (r, log') \<Longrightarrow>
   \<exists>new. log' = log @ new \<and> length new \<le> 10 - depth \<and>
      (\<forall>i. Suc i < length new \<longrightarrow> new ! i \<noteq> [] \<and> last (new ! i) = CHR '' '')"
proof (induction tbl depth cur log arbitrary: r log' rule: expand_aliases_loop.induct)
  case (1 tbl depth cur log)
  define p where "p = dropWhile isspace cur"
  define word where "word = takeWhile (\<lambda>c. \<not> isspace c) p"
  define rest where "rest = dropWhile (\<lambda>c. \<not> isspace c) p"
  note eq = "1.prems"[unfolded expand_aliases_loop.simps[of tbl depth cur log], folded p_def, unfolded Let_def, folded word_def rest_def]
  show ?case
  proof (cases "depth < 10 \<and> p \<noteq> [] \<and> length word < 256")
    case False
    then have "log' = log" using eq by (auto split: if_splits)
    then show ?thesis by simp
  next
    case True
    show ?thesis
    proof (cases "alias_lookup tbl word")
      case None
      then have "log' = log" using eq True by (auto split: if_splits)
      then show ?thesis by simp
    next
      case (Some rep)
      show ?thesis
      proof (cases "rep = [] \<or> last rep \<noteq> CHR '' ''")
        case stop: True
        then have "log' = log @ [rep]" using eq True Some by (auto split: if_splits)
        moreover have "length [rep] \<le> 10 - depth" using True by auto
        ultimately show ?thesis by (intro exI[of _ "[rep]"]) simp
      next
        case go: False
        then have rec: "expand_aliases_loop tbl (depth + 1) (takeWhile isspace cur @ rep @ rest) (log @ [rep]) = (r, log')"
          using eq True Some by (auto split: if_splits)
        have "\<exists>new. log' = (log @ [rep]) @ new \<and> length new \<le> 10 - (depth + 1) \<and>
                (\<forall>i. Suc i < length new \<longrightarrow> new ! i \<noteq> [] \<and> last (new ! i) = CHR '' '')"
          using "1.IH"[of "takeWhile isspace cur" p word rest rep "takeWhile isspace cur @ rep @ rest" r log']
            True Some go rec
          by (auto simp: p_def word_def rest_def)
        then obtain new where new: "log' = (log @ [rep]) @ new" "length new \<le> 10 - (depth + 1)"
          "\<forall>i. Suc i < length new \<longrightarrow> new ! i \<noteq> [] \<and> last (new ! i) = CHR '' ''" by blast
        have "\<forall>i. Suc i < length (rep # new) \<longrightarrow> (rep # new) ! i \<noteq> [] \<and> last ((rep # new) ! i) = CHR '' ''"
        proof (intro allI impI)
          fix i assume "Suc i < length (rep # new)"
          then show "(rep # new) ! i \<noteq> [] \<and> last ((rep # new) ! i) = CHR '' ''"
            using go new(3) by (cases i) auto
        qed
        moreover have "length (rep # new) \<le> 10 - depth" using new(2) True by auto
        moreover have "log' = log @ (rep # new)" using new(1) by simp
        ultimately show ?thesis by blast
      qed
    qed
  qed
qed

text \<open>
  Claim C10.  For every alias table and every line, \<^verbatim>\<open>expand_aliases\<close> returns (the loop
  is bounded, the function is total) after at most 10 substitutions, and every
  substitution but the last one used a replacement text that is not empty and ends
  with a space: a further substitution is attempted only then.
\<close>

theorem expand_aliases_bounded:
  "length (snd (expand_aliases_log tbl cmdline)) \<le> 10 \<and>
   (\<forall>i. Suc i < length (snd (expand_aliases_log tbl cmdline)) \<longrightarrow>
        snd (expand_aliases_log tbl cmdline) ! i \<noteq> [] \<and>
        last (snd (expand_aliases_log tbl cmdline) ! i) = CHR '' '')"
proof (cases "tbl = None \<or> cmdline = []")
  case True
  then show ?thesis by (auto simp: expand_aliases_log_def)
next
  case False
  obtain r log' where rl: "expand_aliases_loop tbl 0 cmdline [] = (r, log')"
    by (cases "expand_aliases_loop tbl 0 cmdline []")
  from expand_aliases_loop_log[OF rl] have
    "length log' \<le> 10 \<and> (\<forall>i. Suc i < length log' \<longrightarrow> log' ! i \<noteq> [] \<and> last (log' ! i) = CHR '' '')"
    by auto
  then show ?thesis using False rl by (simp add: expand_aliases_log_def)
qed

theorem expand_aliases_bounded_witness:
  "expand_aliases_log (Some [''a'' \<mapsto> ''b '', ''b'' \<mapsto> ''c'']) ''a x'' = (''c  x'', [''b '', ''c''])
   \<and> length [''b '', ''c''] \<le> (10::nat)
   \<and> [''b '', ''c''] ! 0 \<noteq> [] \<and> last ([''b '', ''c''] ! 0) = CHR '' ''"
  using expand_aliases_bounded [of "Some [''a'' \<mapsto> ''b '', ''b'' \<mapsto> ''c'']" "''a x''"]
  by (simp add: expand_aliases_log_def alias_lookup_def isspace_def)

text \<open>The bound is reached: an alias whose text starts with its own name and ends with a
  space is substituted exactly 10 times.\<close>

lemma expand_aliases_reaches_bound:
  "length (snd (expand_aliases_log (Some [''a'' \<mapsto> ''a '']) ''a'')) = 10"
  by (simp add: expand_aliases_log_def alias_lookup_def isspace_def Let_def)

section \<open>Properties of the lexer\<close>

text \<open>What the claims say about a token: its kind, its text and its \<^verbatim>\<open>redir_fd\<close>.\<close>

definition tok_view :: "Token \<Rightarrow> TokenType \<times> string option \<times> int" where
  "tok_view t = (tk_type t, tk_value t, redir_fd t)"

lemma lexer_next_error_mono:
  "lexer_next lx0 = (tok, lx') \<Longrightarrow> tk_type tok = TOK_EOF \<Longrightarrow> error lx' = error lx0"
  using lexer_next_fields by blast

lemma lexer_tokenize_loop_last:
  "lexer_tokenize_loop lx list = (toks, lx') \<Longrightarrow> error lx = None \<Longrightarrow>
     toks \<noteq> [] \<and> ((tk_type (last toks) = TOK_EOF) = (error lx' = None))"
proof (induction lx list arbitrary: toks lx' rule: lexer_tokenize_loop.induct)
  case (1 lx list)
  obtain tok lx1 where n: "lexer_next lx = (tok, lx1)" by (cases "lexer_next lx")
  note eq = "1.prems"(1)[unfolded lexer_tokenize_loop.simps[of lx list] n, simplified, unfolded Let_def]
  show ?case
  proof (cases "tk_type tok = TOK_EOF")
    case True
    then have "toks = list @ [tok]" "lx' = lx1" using eq by simp_all
    moreover have "error lx1 = None"
      using lexer_next_error_mono[OF n True] "1.prems"(2) by simp
    ultimately show ?thesis using True by simp
  next
    case False
    show ?thesis
    proof (cases "error lx1 \<noteq> None")
      case True
      then have "toks = list @ [tok]" "lx' = lx1" using eq False by simp_all
      then show ?thesis using True False by simp
    next
      case noerr: False
      then have rec: "lexer_tokenize_loop lx1 (list @ [tok]) = (toks, lx')"
        using eq False by simp
      from "1.IH"[OF n[symmetric] refl False _ rec] noerr show ?thesis by simp
    qed
  qed
qed

text \<open>
  Claim C3, as the code has it.  For every input, \<^verbatim>\<open>lexer_tokenize\<close> returns a list that is
  not empty, and the last token is EOF exactly when no lexer error was recorded.  After
  an error (an unterminated quote) the loop stops at once: the list ends with the word
  that was being built, not with EOF.
\<close>

theorem lexer_tokenize_last_EOF_iff_no_error:
  "(case lexer_tokenize (lexer_init L) of
      (toks, lx') \<Rightarrow> toks \<noteq> [] \<and> ((tk_type (last toks) = TOK_EOF) = (error lx' = None)))"
proof -
  obtain toks lx' where t: "lexer_tokenize_loop (lexer_init L) [] = (toks, lx')"
    by (cases "lexer_tokenize_loop (lexer_init L) []")
  have "error (lexer_init L) = None" by (simp add: lexer_init_def)
  from lexer_tokenize_loop_last[OF t this] t show ?thesis
    by (simp add: lexer_tokenize_def)
qed

text \<open>The claim as stated fails on the input consisting of one single quote.\<close>

theorem lexer_tokenize_last_EOF_counterexample:
  "\<not> (tk_type (last (fst (lexer_tokenize (lexer_init (Some [CHR 0x27]))))) = TOK_EOF)"
  by code_simp

theorem lexer_tokenize_last_EOF_iff_no_error_witness:
  "fst (lexer_tokenize (lexer_init (Some ''ls''))) \<noteq> []
   \<and> tk_type (last (fst (lexer_tokenize (lexer_init (Some ''ls''))))) = TOK_EOF
   \<and> error (snd (lexer_tokenize (lexer_init (Some ''ls'')))) = None"
proof -
  have e: "error (snd (lexer_tokenize (lexer_init (Some ''ls'')))) = None"
    by code_simp
  show ?thesis
    using lexer_tokenize_last_EOF_iff_no_error [of "Some ''ls''"] e
    by (simp add: case_prod_unfold)
qed

subsection \<open>Single-quoted text\<close>

lemma single_quoted_scan:
  assumes "input lx = pre @ X @ CHR 0x27 # post" "pos lx = length pre" "len lx = length (input lx)"
    "CHR 0x27 \<notin> set X"
  shows "\<exists>lx'. single_quoted lx buf = (lx', buf @ X) \<and> pos lx' = length pre + length X \<and>
           input lx' = input lx \<and> len lx' = len lx \<and> error lx' = error lx"
  using assms
proof (induction X arbitrary: pre lx buf)
  case Nil
  then have "lex_cur lx = CHR 0x27" by (simp add: lex_cur_def)
  then show ?case using Nil.prems by (subst single_quoted.simps) simp
next
  case (Cons x X)
  have cur: "lex_cur lx = x" "pos lx < len lx" "x \<noteq> CHR 0x27"
    using Cons.prems by (auto simp: lex_cur_def nth_append)
  have step: "single_quoted lx buf = single_quoted (lex_advance lx) (buf @ [x])"
    using cur by (subst single_quoted.simps) simp
  have "\<exists>lx'. single_quoted (lex_advance lx) (buf @ [x]) = (lx', (buf @ [x]) @ X) \<and>
          pos lx' = length (pre @ [x]) + length X \<and>
          input lx' = input (lex_advance lx) \<and> len lx' = len (lex_advance lx) \<and>
          error lx' = error (lex_advance lx)"
    using Cons.prems cur by (intro Cons.IH) auto
  then show ?case using step by auto
qed

lemma skip_whitespace_id:
  "pos lx \<ge> len lx \<or> (lex_cur lx \<noteq> CHR '' '' \<and> lex_cur lx \<noteq> CHR 0x09) \<Longrightarrow> skip_whitespace lx = lx"
  by (subst skip_whitespace.simps) (auto simp: lex_cur_def)

lemma lexer_next_at_end:
  "pos lx \<ge> len lx \<Longrightarrow> lexer_next lx = (make_token TOK_EOF None (line lx) (col lx), lx)"
  by (subst lexer_next.simps) (simp add: skip_whitespace_id)

lemma build_word_loop_at_end:
  "pos lx \<ge> len lx \<Longrightarrow> build_word_loop lx buf = (lx, buf)"
  by (subst build_word_loop.simps) simp

lemma lexer_next_single_quoted:
  assumes "CHR 0x27 \<notin> set X"
  shows "\<exists>tok lx'. lexer_next (lexer_init (Some (CHR 0x27 # X @ [CHR 0x27]))) = (tok, lx') \<and>
           tok_view tok = (check_keyword X, Some X, - 1) \<and> tk_line tok = 1 \<and> tk_col tok = 1 \<and>
           pos lx' = len lx' \<and> error lx' = None"
proof -
  let ?lx = "lexer_init (Some (CHR 0x27 # X @ [CHR 0x27]))"
  have f: "input ?lx = CHR 0x27 # X @ [CHR 0x27]" "pos ?lx = 0" "len ?lx = length X + 2"
    "error ?lx = None" "line ?lx = 1" "col ?lx = 1"
    by (simp_all add: lexer_init_def)
  have cur: "lex_cur ?lx = CHR 0x27" by (simp add: lex_cur_def f)
  have sw: "skip_whitespace ?lx = ?lx" using cur by (intro skip_whitespace_id) simp
  have nop: "lexer_next_operator ?lx 1 1 = None"
    by (simp add: lexer_next_operator_def cur Let_def)
  have nd: "\<not> isdigit (CHR 0x27)" by (simp add: isdigit_def)
  have ln: "lexer_next ?lx = build_word ?lx"
    by (subst lexer_next.simps) (simp add: sw f cur nop nd Let_def)
  let ?a = "lex_advance ?lx"
  have fa: "input ?a = [CHR 0x27] @ X @ CHR 0x27 # []" "pos ?a = length [CHR 0x27]"
    "len ?a = length (input ?a)" "error ?a = None"
    by (simp_all add: f)
  from single_quoted_scan[OF fa(1,2,3) assms, of "[]"]
  obtain lx1 where q: "single_quoted ?a [] = (lx1, X)" "pos lx1 = 1 + length X"
    "input lx1 = input ?a" "len lx1 = len ?a" "error lx1 = None"
    using fa(4) by auto
  have lt1: "pos lx1 < len lx1" using q f by simp
  let ?b = "lex_advance lx1"
  have fb: "pos ?b = len ?b" "error ?b = None" using q f lt1 by simp_all
  have "build_word_loop ?lx [] = build_word_loop ?b X"
    using q lt1 by (subst build_word_loop.simps) (simp add: f cur Let_def)
  also have "\<dots> = (?b, X)" using fb by (intro build_word_loop_at_end) simp
  finally have "build_word ?lx = (make_token (check_keyword X) (Some X) 1 1, ?b)"
    by (simp add: build_word_def f Let_def)
  then show ?thesis using ln fb by (simp add: tok_view_def make_token_def)
qed

lemma lexer_tokenize_single_quoted:
  assumes "CHR 0x27 \<notin> set X"
  shows "map tok_view (fst (lexer_tokenize (lexer_init (Some (CHR 0x27 # X @ [CHR 0x27]))))) =
           [(check_keyword X, Some X, - 1), (TOK_EOF, None, - 1)] \<and>
         error (snd (lexer_tokenize (lexer_init (Some (CHR 0x27 # X @ [CHR 0x27]))))) = None"
proof -
  let ?lx = "lexer_init (Some (CHR 0x27 # X @ [CHR 0x27]))"
  from lexer_next_single_quoted[OF assms]
  obtain tok lx' where n: "lexer_next ?lx = (tok, lx')"
    "tok_view tok = (check_keyword X, Some X, - 1)" "pos lx' = len lx'" "error lx' = None"
    by blast
  have ne: "tk_type tok \<noteq> TOK_EOF" using n(2) check_keyword_not_EOF by (auto simp: tok_view_def)
  have e: "lexer_next lx' = (make_token TOK_EOF None (line lx') (col lx'), lx')"
    using n(3) by (intro lexer_next_at_end) simp
  have "lexer_tokenize ?lx = lexer_tokenize_loop lx' [tok]"
    unfolding lexer_tokenize_def
    using n ne by (subst lexer_tokenize_loop.simps) (simp add: Let_def)
  also have "\<dots> = ([tok, make_token TOK_EOF None (line lx') (col lx')], lx')"
    using e by (subst lexer_tokenize_loop.simps) (simp add: Let_def make_token_def)
  finally show ?thesis using n by (simp add: tok_view_def make_token_def)
qed

text \<open>
  What holds of claim C6: the text between the quotes comes out unchanged, in one token
  followed by EOF, without error.  The kind of that token is whatever
  \<^verbatim>\<open>check_keyword\<close> makes of the text: WORD unless the text is a reserved word.
\<close>

lemma check_keyword_WORD_iff:
  "(check_keyword X = TOK_WORD) = (X \<notin> fst ` set keyword_table)"
  by (auto simp: check_keyword_def keyword_table_def)

lemma lexer_tokenize_single_quoted_word:
  assumes "CHR 0x27 \<notin> set X" "X \<notin> fst ` set keyword_table"
  shows "map tok_view (fst (lexer_tokenize (lexer_init (Some (CHR 0x27 # X @ [CHR 0x27]))))) =
           [(TOK_WORD, Some X, - 1), (TOK_EOF, None, - 1)]"
  using lexer_tokenize_single_quoted[OF assms(1)] assms(2) check_keyword_WORD_iff[of X]
  by simp

text \<open>
  Claim C6 at the input \<^verbatim>\<open>'if'\<close>: the lexer returns an IF token, not a WORD.
  \<^verbatim>\<open>build_word\<close> sets \<^verbatim>\<open>in_quotes\<close> and never reads it.
\<close>

theorem single_quoted_keyword_lexes_as_keyword:
  "map tok_view (fst (lexer_tokenize (lexer_init (Some [CHR 0x27, CHR ''i'', CHR ''f'', CHR 0x27])))) =
     [(TOK_IF, Some ''if'', - 1), (TOK_EOF, None, - 1)]"
  by code_simp

subsection \<open>Descriptor duplication\<close>

text \<open>The characters at which the scan of the target of \<^verbatim>\<open>N>&\<close> stops.\<close>

definition dup_stop :: "char \<Rightarrow> bool" where
  "dup_stop c = (isspace c \<or> c = CHR ''|'' \<or> c = CHR ''&'' \<or> c = CHR '';'' \<or> c = CHR 0x0A)"

lemma dup_target_scan:
  assumes "input lx = pre @ W @ rest" "pos lx = length pre" "len lx = length (input lx)"
    "\<forall>c \<in> set W. \<not> dup_stop c" "rest = [] \<or> dup_stop (hd rest)"
  shows "\<exists>lx'. dup_target lx v = (lx', v @ W) \<and> pos lx' = length pre + length W \<and>
           input lx' = input lx \<and> len lx' = len lx \<and> error lx' = error lx"
  using assms
proof (induction W arbitrary: pre lx v)
  case Nil
  have "pos lx \<ge> len lx \<or> dup_stop (lex_cur lx)"
    using Nil.prems by (cases rest) (auto simp: lex_cur_def nth_append)
  then show ?case using Nil.prems by (subst dup_target.simps) (auto simp: dup_stop_def)
next
  case (Cons x W)
  have cur: "lex_cur lx = x" "pos lx < len lx" "\<not> dup_stop x"
    using Cons.prems by (auto simp: lex_cur_def nth_append)
  have step: "dup_target lx v = dup_target (lex_advance lx) (v @ [x])"
    using cur by (subst dup_target.simps) (auto simp: dup_stop_def)
  have "\<exists>lx'. dup_target (lex_advance lx) (v @ [x]) = (lx', (v @ [x]) @ W) \<and>
          pos lx' = length (pre @ [x]) + length W \<and>
          input lx' = input (lex_advance lx) \<and> len lx' = len (lex_advance lx) \<and>
          error lx' = error (lex_advance lx)"
    using Cons.prems cur by (intro Cons.IH) auto
  then show ?case using step by auto
qed

text \<open>
  What holds of claim C5: a digit \<open>N\<close>, then \<^verbatim>\<open>>&\<close>, then a word \<open>W\<close> that runs up to
  the end of the input or a stop character, is one REDIR_DUP token with
  \<^verbatim>\<open>redir_fd\<close> \<open>N\<close> and text \<open>W\<close>.
\<close>

lemma lexer_next_dup_out:
  assumes "isdigit N" "\<forall>c \<in> set W. \<not> dup_stop c" "rest = [] \<or> dup_stop (hd rest)"
  shows "\<exists>tok lx'. lexer_next (lexer_init (Some (N # ''>&'' @ W @ rest))) = (tok, lx') \<and>
           tok_view tok = (TOK_REDIR_DUP, Some W, int (of_char N) - 48) \<and>
           pos lx' = 3 + length W \<and> error lx' = None"
proof -
  define lx where "lx = lexer_init (Some (N # ''>&'' @ W @ rest))"
  have f: "input lx = N # CHR ''>'' # CHR ''&'' # W @ rest" "pos lx = 0"
    "len lx = length W + length rest + 3" "error lx = None"
    by (simp_all add: lx_def lexer_init_def)
  have cur: "lex_cur lx = N" "lex_peek lx (Suc 0) = CHR ''>''" by (simp_all add: lex_cur_def lex_peek_def f)
  have nN: "N \<noteq> CHR '' ''" "N \<noteq> CHR 0x09" "N \<noteq> CHR ''#''" "N \<noteq> CHR 0x0A"
    using assms(1) by (auto simp: isdigit_def)
  have sw: "skip_whitespace lx = lx" using cur nN by (intro skip_whitespace_id) simp
  have ln: "lexer_next lx = lexer_next_fd_redir lx (line lx) N"
    using assms(1) nN by (subst lexer_next.simps) (simp add: sw f cur Let_def)
  define a where "a = lex_advance lx"
  have fa: "pos a = 1" "input a = input lx" "len a = len lx" by (simp_all add: f a_def)
  have cura: "lex_cur a = CHR ''>''" "lex_peek a (Suc 0) = CHR ''&''"
    by (simp_all add: lex_cur_def lex_peek_def f fa)
  define c where "c = lex_advance (lex_advance a)"
  have fc: "input c = (N # ''>&'') @ W @ rest" "pos c = length (N # ''>&'')"
    "len c = length (input c)" "error c = None"
    by (simp_all add: f fa c_def a_def)
  from dup_target_scan[OF fc(1,2,3) assms(2,3), of "[]"]
  obtain lx1 where d: "dup_target c [] = (lx1, W)" "pos lx1 = 3 + length W" "error lx1 = None"
    using fc(4) by auto
  have "lexer_next_fd_redir lx (line lx) N =
          ((make_token TOK_REDIR_DUP (Some W) (line lx) (col a))\<lparr>redir_fd := int (of_char N) - 48\<rparr>, lx1)"
    using d(1) by (simp add: lexer_next_fd_redir_def Let_def cura a_def[symmetric] c_def[symmetric])
  then show ?thesis using ln d by (simp add: tok_view_def make_token_def lx_def)
qed

text \<open>
  Claim C5 at the input \<^verbatim>\<open>0<&3\<close>: the branch for \<^verbatim>\<open><\<close> has no case for a following
  \<^verbatim>\<open>&\<close>, and the input is lexed as REDIR_IN, AMP, WORD, EOF.
\<close>

theorem dup_in_not_lexed_as_REDIR_DUP:
  "map tok_view (fst (lexer_tokenize (lexer_init (Some ''0<&3'')))) =
     [(TOK_REDIR_IN, Some ''<'', 0), (TOK_AMP, Some ''&'', - 1),
      (TOK_WORD, Some ''3'', - 1), (TOK_EOF, None, - 1)]"
  by code_simp

section \<open>Properties of the parser\<close>

text \<open>
  Token lists that end with EOF, as the lexer returns them when it records no error.
\<close>

definition WF :: "Token list \<Rightarrow> bool" where
  "WF ts = (ts \<noteq> [] \<and> tk_type (last ts) = TOK_EOF)"

definition pinv :: "Parser \<Rightarrow> bool" where
  "pinv p = (if had_error p then (\<exists>m. perror p = Some m \<and> m \<noteq> []) else perror p = None)"

definition ext :: "Parser \<Rightarrow> Parser \<Rightarrow> bool" where
  "ext p q = (tokens q = tokens p \<and> ppos p \<le> ppos q \<and> (had_error p \<longrightarrow> had_error q) \<and>
              (pinv p \<longrightarrow> pinv q))"

lemma ext_refl [simp]: "ext p p"
  by (simp add: ext_def)

lemma ext_trans: "ext p q \<Longrightarrow> ext q r \<Longrightarrow> ext p r"
  by (auto simp: ext_def)

lemma cur_token_past_end:
  "WF (tokens p) \<Longrightarrow> length (tokens p) \<le> ppos p \<Longrightarrow> tk_type (cur_token p) = TOK_EOF"
  using last_conv_nth[of "tokens p"] by (auto simp: WF_def cur_token_def)

lemma not_EOF_in_range:
  "WF (tokens p) \<Longrightarrow> tk_type (cur_token p) \<noteq> TOK_EOF \<Longrightarrow> ppos p < length (tokens p)"
  using cur_token_past_end[of p] by (cases "ppos p < length (tokens p)") auto

lemma advance_fields [simp]:
  "tokens (snd (advance p)) = tokens p"
  "had_error (snd (advance p)) = had_error p"
  "perror (snd (advance p)) = perror p"
  "fst (advance p) = cur_token p"
  by (simp_all add: advance_def)

lemma advance_ppos:
  "ppos (snd (advance p)) = (if ppos p < length (tokens p) then Suc (ppos p) else ppos p)"
  by (simp add: advance_def)

lemma ext_advance: "ext p q \<Longrightarrow> ext p (snd (advance q))"
  by (auto simp: ext_def advance_ppos pinv_def)

lemma parser_error_at_fields [simp]:
  "tokens (parser_error_at p tok msg) = tokens p"
  "ppos (parser_error_at p tok msg) = ppos p"
  "had_error (parser_error_at p tok msg)"
  by (simp_all add: parser_error_at_def)

lemma parser_error_at_pinv: "pinv p \<Longrightarrow> pinv (parser_error_at p tok msg)"
  by (auto simp: parser_error_at_def pinv_def)

lemma ext_parser_error_at: "ext p q \<Longrightarrow> ext p (parser_error_at q tok msg)"
  using parser_error_at_pinv[of q tok msg] by (auto simp: ext_def)

lemma expect_cases:
  "(check p ty \<and> expect p ty = (Some (cur_token p), snd (advance p))) \<or>
   (\<not> check p ty \<and> (\<exists>msg. expect p ty = (None, parser_error_at p (cur_token p) msg)))"
  by (auto simp: expect_def advance_def)

lemma ext_expect: "ext p q \<Longrightarrow> ext p (snd (expect q ty))"
  using expect_cases[of q ty] ext_advance[of p q] ext_parser_error_at[of p q]
  by auto

lemma expect_None: "fst (expect p ty) = None \<Longrightarrow> had_error (snd (expect p ty))"
  using expect_cases[of p ty] by auto

lemma expect_progress:
  "WF (tokens p) \<Longrightarrow> ty \<noteq> TOK_EOF \<Longrightarrow> fst (expect p ty) \<noteq> None \<Longrightarrow>
     ppos p < ppos (snd (expect p ty))"
  using expect_cases[of p ty] not_EOF_in_range[of p]
  by (auto simp: check_def advance_ppos)

lemma skip_newlines_total:
  "WF (tokens p) \<Longrightarrow>
   \<exists>p'. skip_newlines p = Some p' \<and> tokens p' = tokens p \<and> ppos p \<le> ppos p' \<and>
        perror p' = perror p \<and> had_error p' = had_error p \<and> \<not> check p' TOK_NEWLINE"
proof (induction "length (tokens p) - ppos p" arbitrary: p rule: less_induct)
  case less
  show ?case
  proof (cases "check p TOK_NEWLINE")
    case False
    then show ?thesis by (subst skip_newlines.simps) simp
  next
    case True
    then have lt: "ppos p < length (tokens p)"
      using not_EOF_in_range[OF less.prems] by (simp add: check_def)
    let ?q = "snd (advance p)"
    have "length (tokens ?q) - ppos ?q < length (tokens p) - ppos p"
      using lt by (simp add: advance_ppos)
    from less.hyps[OF this] less.prems
    obtain p' where "skip_newlines ?q = Some p'" "tokens p' = tokens ?q" "ppos ?q \<le> ppos p'"
      "perror p' = perror ?q" "had_error p' = had_error ?q" "\<not> check p' TOK_NEWLINE"
      by auto
    moreover have "skip_newlines p = skip_newlines ?q"
      using True by (subst skip_newlines.simps) simp
    ultimately show ?thesis using lt by (auto simp: advance_ppos)
  qed
qed

definition skn :: "Parser \<Rightarrow> Parser" where
  "skn p = the (skip_newlines p)"

lemma skip_newlines_skn: "WF (tokens p) \<Longrightarrow> skip_newlines p = Some (skn p)"
  using skip_newlines_total[of p] by (auto simp: skn_def)

lemma skn_fields:
  assumes "WF (tokens p)"
  shows "tokens (skn p) = tokens p" "ppos p \<le> ppos (skn p)" "perror (skn p) = perror p"
    "had_error (skn p) = had_error p" "\<not> check (skn p) TOK_NEWLINE"
  using skip_newlines_total[OF assms] by (auto simp: skn_def)

lemma ext_skn: "WF (tokens p) \<Longrightarrow> ext p q \<Longrightarrow> ext p (skn q)"
  using skn_fields[of q] by (auto simp: ext_def pinv_def)

text \<open>ok m p Q: the call m, made in state p, returns, in a state that extends p and
  satisfies Q.\<close>

definition ok :: "('a \<times> Parser) option \<Rightarrow> Parser \<Rightarrow> ('a \<Rightarrow> Parser \<Rightarrow> bool) \<Rightarrow> bool" where
  "ok m p Q = (\<exists>r p'. m = Some (r, p') \<and> ext p p' \<and> Q r p')"

lemma okI: "m = Some (r, p') \<Longrightarrow> ext p p' \<Longrightarrow> Q r p' \<Longrightarrow> ok m p Q"
  by (auto simp: ok_def)

lemma ok_Some [simp]: "ok (Some (r, p')) p Q = (ext p p' \<and> Q r p')"
  by (auto simp: ok_def)

lemma ok_None [simp]: "\<not> ok None p Q"
  by (auto simp: ok_def)

lemma ok_if: "ok (if c then a else b) p Q = (if c then ok a p Q else ok b p Q)"
  by simp

lemma ok_bind:
  assumes "ok m q R" "ext p q"
    and "\<And>r q'. ext p q' \<Longrightarrow> R r q' \<Longrightarrow> ok (f (r, q')) p Q"
  shows "ok (m \<bind> f) p Q"
proof -
  from assms(1) obtain r q' where m: "m = Some (r, q')" "ext q q'" "R r q'"
    by (auto simp: ok_def)
  from assms(3)[OF ext_trans[OF assms(2) m(2)] m(3)] m(1) show ?thesis by simp
qed

lemma ok_weaken: "ok m p Q \<Longrightarrow> (\<And>r p'. ext p p' \<Longrightarrow> Q r p' \<Longrightarrow> Q' r p') \<Longrightarrow> ok m p Q'"
  by (auto simp: ok_def)

lemma ok_skip_bind:
  assumes "WF (tokens p)" "ext p q" "ext p (skn q) \<Longrightarrow> ok (f (skn q)) p Q"
  shows "ok (skip_newlines q \<bind> f) p Q"
proof -
  have "WF (tokens q)" using assms(1,2) by (simp add: ext_def)
  then show ?thesis using assms ext_skn[of p q] by (simp add: skip_newlines_skn)
qed

lemma ok_case_expect:
  assumes "ext p q"
    and "\<And>q'. ext p q' \<Longrightarrow> had_error q' \<Longrightarrow> ok (A q') p Q"
    and "\<And>t q'. ext p q' \<Longrightarrow> ok (B t q') p Q"
  shows "ok (case expect q ty of (None, q') \<Rightarrow> A q' | (Some t, q') \<Rightarrow> B t q') p Q"
  using expect_cases[of q ty] assms ext_advance[of p q] ext_parser_error_at[of p q]
  by auto

lemma ok_ext_left: "ok m q Q \<Longrightarrow> ext p q \<Longrightarrow> ok m p Q"
  using ext_trans by (fastforce simp: ok_def)

definition node_post :: "'a option \<Rightarrow> Parser \<Rightarrow> bool" where
  "node_post r p' = (\<not> had_error p' \<longrightarrow> r \<noteq> None)"

lemma node_post_simps [simp]:
  "node_post (Some x) p'" "node_post None p' = had_error p'"
  by (simp_all add: node_post_def)

text \<open>pl_ok pl p: the callee pl returns from every state that extends p.\<close>

definition pl_ok :: "(Parser \<Rightarrow> ('a \<times> Parser) option) \<Rightarrow> Parser \<Rightarrow> bool" where
  "pl_ok pl p = (\<forall>q. ext p q \<longrightarrow> ok (pl q) q (\<lambda>r q'. True))"

lemma pl_ok_bind:
  assumes "pl_ok pl p" "ext p q" "\<And>r q'. ext p q' \<Longrightarrow> ok (f (r, q')) p Q"
  shows "ok (pl q \<bind> f) p Q"
  using assms ok_bind[of "pl q" q "\<lambda>r q'. True" p f Q] by (auto simp: pl_ok_def)

lemma pl_ok_ext: "pl_ok pl p \<Longrightarrow> ext p q \<Longrightarrow> pl_ok pl q"
  using ext_trans by (fastforce simp: pl_ok_def)

lemma WF_ext: "WF (tokens p) \<Longrightarrow> ext p q \<Longrightarrow> WF (tokens q)"
  by (simp add: ext_def)

lemma parse_if_clause_ok:
  assumes wf: "WF (tokens p)" and pl: "pl_ok pl p"
  shows "ok (parse_if_clause pl p) p node_post"
  unfolding parse_if_clause_def
  by (auto intro!: ok_skip_bind[OF wf] pl_ok_bind[OF pl] ok_case_expect)

lemma parse_if_clause_bind:
  assumes "WF (tokens p)" "pl_ok pl p" "ext p q"
    "\<And>r q'. ext p q' \<Longrightarrow> node_post r q' \<Longrightarrow> ok (f (r, q')) p Q"
  shows "ok (parse_if_clause pl q \<bind> f) p Q"
  using assms(3,4) parse_if_clause_ok[OF WF_ext[OF assms(1,3)] pl_ok_ext[OF assms(2,3)]]
  by (intro ok_bind[where q = q and R = node_post]) auto

lemma parse_else_branch_ok:
  assumes wf: "WF (tokens p)" and pl: "pl_ok pl p"
  shows "ok (parse_else_branch pl p) p node_post"
  unfolding parse_else_branch_def
  by (auto intro!: ok_skip_bind[OF wf] pl_ok_bind[OF pl] ext_advance)

lemma parse_else_branch_bind:
  assumes "WF (tokens p)" "pl_ok pl p" "ext p q"
    "\<And>r q'. ext p q' \<Longrightarrow> node_post r q' \<Longrightarrow> ok (f (r, q')) p Q"
  shows "ok (parse_else_branch pl q \<bind> f) p Q"
  using assms(3,4) parse_else_branch_ok[OF WF_ext[OF assms(1,3)] pl_ok_ext[OF assms(2,3)]]
  by (intro ok_bind[where q = q and R = node_post]) auto

definition pel_ok ::
  "(Parser \<Rightarrow> 'b \<Rightarrow> ('a option \<times> Parser) option) \<Rightarrow> Parser \<Rightarrow> bool" where
  "pel_ok pel p = (\<forall>q acc. ext p q \<longrightarrow> ok (pel q acc) q node_post)"

lemma pel_ok_bind:
  assumes "pel_ok pel p" "ext p q" "\<And>r q'. ext p q' \<Longrightarrow> node_post r q' \<Longrightarrow> ok (f (r, q')) p Q"
  shows "ok (pel q acc \<bind> f) p Q"
  using assms ok_bind[of "pel q acc" q node_post p f Q] by (auto simp: pel_ok_def)

lemma parse_if_else_ok:
  assumes wf: "WF (tokens p)" and pl: "pl_ok pl p" and pel: "pel_ok pel p"
  shows "ok (parse_if_else pl pel p) p node_post"
  unfolding parse_if_else_def
  by (auto intro!: parse_if_clause_bind[OF wf pl] parse_else_branch_bind[OF wf pl]
        pel_ok_bind[OF pel] ext_advance split: option.split)

lemma parse_if_ok:
  assumes wf: "WF (tokens p)" and pl: "pl_ok pl p" and pel: "pel_ok pel p"
  shows "ok (parse_if pl pel p) p node_post"
proof -
  have b: "ok (parse_if_else pl pel q \<bind> f) p Q"
    if "ext p q" "\<And>r q'. ext p q' \<Longrightarrow> node_post r q' \<Longrightarrow> ok (f (r, q')) p Q" for q f Q
  proof -
    have "pel_ok pel q" using pel that(1) ext_trans by (fastforce simp: pel_ok_def)
    from parse_if_else_ok[OF WF_ext[OF wf that(1)] pl_ok_ext[OF pl that(1)] this] that
    show ?thesis by (intro ok_bind[where q = q and R = node_post]) auto
  qed
  show ?thesis
    unfolding parse_if_def
    by (auto intro!: parse_if_clause_bind[OF wf pl] b ok_case_expect split: option.split)
qed

lemma parse_while_ok:
  assumes wf: "WF (tokens p)" and pl: "pl_ok pl p"
  shows "ok (parse_while pl p) p node_post"
  unfolding parse_while_def
  by (auto intro!: ok_skip_bind[OF wf] pl_ok_bind[OF pl] ok_case_expect)

lemma parse_group_ok:
  assumes wf: "WF (tokens p)" and pl: "pl_ok pl (snd (advance p))"
  shows "ok (parse_group pl cl mk p) p node_post"
proof -
  have wf1: "WF (tokens (snd (advance p)))" using wf by simp
  show ?thesis
    unfolding parse_group_def
    by (rule ok_ext_left[OF _ ext_advance[OF ext_refl]])
       (auto intro!: ok_skip_bind[OF wf1] pl_ok_bind[OF pl] ok_case_expect)
qed

lemma parse_function_body_ok:
  assumes wf: "WF (tokens p)" and pl: "pl_ok pl p"
  shows "ok (parse_function_body pl name p) p node_post"
  unfolding parse_function_body_def
  by (auto intro!: ok_skip_bind[OF wf] pl_ok_bind[OF pl] ok_case_expect)

lemma parse_function_ok:
  assumes wf: "WF (tokens p)" and pl: "pl_ok pl p"
  shows "ok (parse_function pl p) p node_post"
proof -
  have b: "ok (parse_function_body pl name q) p node_post" if "ext p q" for q name
    using parse_function_body_ok[OF WF_ext[OF wf that] pl_ok_ext[OF pl that]] that
    by (rule ok_ext_left)
  show ?thesis
    unfolding parse_function_def
    by (auto intro!: ok_case_expect b ext_advance)
qed


lemma ok_bind_at:
  assumes "ext p q" "ok m q R" "\<And>r q'. ext p q' \<Longrightarrow> R r q' \<Longrightarrow> ok (f (r, q')) p Q"
  shows "ok (m \<bind> f) p Q"
  using ok_bind[OF assms(2,1)] assms(3) by blast

lemma ok_tail:
  assumes "ext p q" "ok m q R" "\<And>r q'. ext p q' \<Longrightarrow> R r q' \<Longrightarrow> Q r q'"
  shows "ok m p Q"
  using assms ext_trans by (fastforce simp: ok_def)

lemma parse_for_words_ok:
  "WF (tokens p) \<Longrightarrow> ok (parse_for_words p ws) p (\<lambda>r q'. True)"
proof (induction "length (tokens p) - ppos p" arbitrary: p ws rule: less_induct)
  case less
  show ?case
  proof (cases "check p TOK_WORD")
    case False
    then show ?thesis by (subst parse_for_words.simps) simp
  next
    case True
    then have lt: "ppos p < length (tokens p)"
      using not_EOF_in_range[OF less.prems] by (simp add: check_def)
    let ?q = "snd (advance p)"
    have "length (tokens ?q) - ppos ?q < length (tokens p) - ppos p"
      using lt by (simp add: advance_ppos)
    from less.hyps[OF this, of "ws @ [tk_value (cur_token p)]"] less.prems
    have "ok (parse_for_words ?q (ws @ [tk_value (cur_token p)])) ?q (\<lambda>r q'. True)" by simp
    then have "ok (parse_for_words ?q (ws @ [tk_value (cur_token p)])) p (\<lambda>r q'. True)"
      by (rule ok_ext_left) (simp add: ext_advance)
    moreover have "parse_for_words p ws = parse_for_words ?q (ws @ [tk_value (cur_token p)])"
      using True by (subst parse_for_words.simps) (simp add: case_prod_unfold)
    ultimately show ?thesis by simp
  qed
qed

lemma parse_for_in_ok:
  assumes wf: "WF (tokens p)"
  shows "ok (parse_for_in p) p (\<lambda>r q'. True)"
proof -
  have wf1: "WF (tokens (snd (advance p)))" using wf by simp
  show ?thesis
    unfolding parse_for_in_def
    by (auto intro!: ok_bind_at[OF _ parse_for_words_ok[OF wf1]] ext_advance)
qed

lemma parse_for_ok:
  assumes wf: "WF (tokens p)" and pl: "pl_ok pl p"
  shows "ok (parse_for pl p) p node_post"
proof -
  have b: "ok (parse_for_in q \<bind> f) p Q"
    if "ext p q" "\<And>r q'. ext p q' \<Longrightarrow> ok (f (r, q')) p Q" for q f Q
    using that parse_for_in_ok[OF WF_ext[OF wf that(1)]]
    by (intro ok_bind_at[where q = q and R = "\<lambda>r q'. True"]) auto
  show ?thesis
    unfolding parse_for_def
    by (auto intro!: ok_skip_bind[OF wf] pl_ok_bind[OF pl] ok_case_expect b)
qed

lemma parse_redirection_target_ext:
  "ext p q \<Longrightarrow> ext p (snd (parse_redirection_target q cmd op rt dfd))"
  using expect_cases[of q TOK_WORD] ext_advance[of p q] ext_parser_error_at[of p q]
  by (auto simp: parse_redirection_target_def)

lemma parse_redirection_ext:
  assumes "WF (tokens p)" "is_redir (tk_type (cur_token p))"
  shows "ext p (snd (parse_redirection p cmd)) \<and> ppos p < ppos (snd (parse_redirection p cmd))"
proof -
  have lt: "ppos p < length (tokens p)"
    using not_EOF_in_range[OF assms(1)] assms(2) by (auto simp: is_redir_def)
  let ?q = "snd (advance p)"
  have e: "ext p ?q" "ppos p < ppos ?q" using lt by (simp_all add: ext_advance advance_ppos)
  have t: "ext p (snd (parse_redirection_target ?q cmd op rt dfd)) \<and>
           ppos p < ppos (snd (parse_redirection_target ?q cmd op rt dfd))" for op rt dfd
    using parse_redirection_target_ext[OF ext_refl, of ?q cmd op rt dfd] e
    by (auto simp: ext_def)
  have pe: "ext p (parser_error_at ?q op msg)" for op msg
    using e(1) by (rule ext_parser_error_at)
  show ?thesis
    using t pe e(2) by (auto simp: parse_redirection_def case_prod_unfold)
qed

lemma parse_simple_cmd_loop_ok:
  "WF (tokens p) \<Longrightarrow> ok (parse_simple_cmd_loop p cmd) p (\<lambda>r q'. True)"
proof (induction "length (tokens p) - ppos p" arbitrary: p cmd rule: less_induct)
  case less
  consider (stop) "had_error p \<or> (\<not> is_redir (tk_type (cur_token p)) \<and> tk_type (cur_token p) \<noteq> TOK_WORD)"
    | (redir) "\<not> had_error p" "is_redir (tk_type (cur_token p))"
    | (word) "\<not> had_error p" "\<not> is_redir (tk_type (cur_token p))" "tk_type (cur_token p) = TOK_WORD"
    by blast
  then show ?case
  proof cases
    case stop
    then show ?thesis by (subst parse_simple_cmd_loop.simps) auto
  next
    case redir
    obtain cmd' q where r: "parse_redirection p cmd = (cmd', q)" by (cases "parse_redirection p cmd")
    from parse_redirection_ext[OF less.prems redir(2), of cmd] r
    have e: "ext p q" "ppos p < ppos q" by simp_all
    have lt: "ppos p < length (tokens p)"
      using not_EOF_in_range[OF less.prems] redir(2) by (auto simp: is_redir_def)
    have "length (tokens q) - ppos q < length (tokens p) - ppos p"
      using e lt by (simp add: ext_def)
    from less.hyps[OF this, of cmd'] less.prems e(1)
    have "ok (parse_simple_cmd_loop q cmd') q (\<lambda>r q'. True)" by (simp add: ext_def)
    then have "ok (parse_simple_cmd_loop q cmd') p (\<lambda>r q'. True)"
      using e(1) by (rule ok_ext_left)
    moreover have "parse_simple_cmd_loop p cmd = parse_simple_cmd_loop q cmd'"
      using redir r by (subst parse_simple_cmd_loop.simps) simp
    ultimately show ?thesis by simp
  next
    case word
    then have lt: "ppos p < length (tokens p)"
      using not_EOF_in_range[OF less.prems] by simp
    let ?q = "snd (advance p)"
    let ?c = "cmd\<lparr>argv := argv cmd @ [tk_value (cur_token p)]\<rparr>"
    have "length (tokens ?q) - ppos ?q < length (tokens p) - ppos p"
      using lt by (simp add: advance_ppos)
    from less.hyps[OF this, of ?c] less.prems
    have "ok (parse_simple_cmd_loop ?q ?c) ?q (\<lambda>r q'. True)" by simp
    then have "ok (parse_simple_cmd_loop ?q ?c) p (\<lambda>r q'. True)"
      by (rule ok_ext_left) (simp add: ext_advance)
    moreover have "parse_simple_cmd_loop p cmd = parse_simple_cmd_loop ?q ?c"
      using word by (subst parse_simple_cmd_loop.simps) (simp add: case_prod_unfold)
    ultimately show ?thesis by simp
  qed
qed

lemma parse_simple_cmd_ok:
  assumes wf: "WF (tokens p)"
  shows "ok (parse_simple_cmd p) p node_post"
  unfolding parse_simple_cmd_def
  by (auto intro!: ok_bind_at[OF _ parse_simple_cmd_loop_ok[OF wf]] ext_parser_error_at)

subsection \<open>Enough depth: the parser returns\<close>

text \<open>
  With \<open>m\<close> tokens left, depth \<open>4 * m + 3\<close> is enough for \<^verbatim>\<open>parse_list\<close>: every cycle of
  the recursion consumes a token.
\<close>

definition remaining :: "Parser \<Rightarrow> nat" where
  "remaining p = length (tokens p) - ppos p"

lemma remaining_ext: "ext p q \<Longrightarrow> remaining q \<le> remaining p"
  by (auto simp: ext_def remaining_def)

lemma remaining_advance:
  "WF (tokens p) \<Longrightarrow> tk_type (cur_token p) \<noteq> TOK_EOF \<Longrightarrow>
     Suc (remaining (snd (advance p))) = remaining p"
  using not_EOF_in_range[of p] by (simp add: remaining_def advance_ppos)

definition list_post :: "Parser \<Rightarrow> ASTNode option \<Rightarrow> Parser \<Rightarrow> bool" where
  "list_post p r p' = (r = None \<and> \<not> had_error p' \<longrightarrow> p' = skn p)"

definition loop_post :: "ASTNode option \<Rightarrow> ASTNode option \<Rightarrow> Parser \<Rightarrow> bool" where
  "loop_post left r p' = (left \<noteq> None \<and> \<not> had_error p' \<longrightarrow> r \<noteq> None)"

lemma parse_knot:
  "(\<forall>p. WF (tokens p) \<longrightarrow> 4 * remaining p + 3 \<le> n \<longrightarrow> ok (parse_list n p) p (list_post p)) \<and>
   (\<forall>p left. WF (tokens p) \<longrightarrow> 4 * remaining p + 1 \<le> n \<longrightarrow>
        ok (parse_list_loop n p left) p (loop_post left)) \<and>
   (\<forall>p. WF (tokens p) \<longrightarrow> 4 * remaining p + 2 \<le> n \<longrightarrow> ok (parse_pipeline n p) p node_post) \<and>
   (\<forall>p cmds. WF (tokens p) \<longrightarrow> 4 * remaining p + 1 \<le> n \<longrightarrow>
        ok (parse_pipeline_loop n p cmds) p node_post) \<and>
   (\<forall>p. WF (tokens p) \<longrightarrow> 4 * remaining p + 1 \<le> n \<longrightarrow> ok (parse_command n p) p node_post) \<and>
   (\<forall>p acc. WF (tokens p) \<longrightarrow> 4 * remaining p + 1 \<le> n \<longrightarrow>
        ok (parse_elif_loop n p acc) p node_post)"
proof (induction n)
  case 0
  show ?case by simp
next
  case (Suc n)
  have list_at: "ok (parse_list n q) q (list_post q)"
    if "WF (tokens p)" "4 * remaining p + 3 \<le> n" "ext p q" for p q
    using Suc that WF_ext[OF that(1,3)] remaining_ext[OF that(3)] by auto
  have loop_at: "ok (parse_list_loop n q left) q (loop_post left)"
    if "WF (tokens p)" "4 * remaining p + 1 \<le> n" "ext p q" for p q left
    using Suc that WF_ext[OF that(1,3)] remaining_ext[OF that(3)] by auto
  have pipe_at: "ok (parse_pipeline n q) q node_post"
    if "WF (tokens p)" "4 * remaining p + 2 \<le> n" "ext p q" for p q
    using Suc that WF_ext[OF that(1,3)] remaining_ext[OF that(3)] by auto
  have ploop_at: "ok (parse_pipeline_loop n q cmds) q node_post"
    if "WF (tokens p)" "4 * remaining p + 1 \<le> n" "ext p q" for p q cmds
    using Suc that WF_ext[OF that(1,3)] remaining_ext[OF that(3)] by auto
  have cmd_at: "ok (parse_command n q) q node_post"
    if "WF (tokens p)" "4 * remaining p + 1 \<le> n" "ext p q" for p q
    using Suc that WF_ext[OF that(1,3)] remaining_ext[OF that(3)] by auto
  have elif_at: "ok (parse_elif_loop n q acc) q node_post"
    if "WF (tokens p)" "4 * remaining p + 1 \<le> n" "ext p q" for p q acc
    using Suc that WF_ext[OF that(1,3)] remaining_ext[OF that(3)] by auto
  have pl_at: "pl_ok (parse_list n) p" if "WF (tokens p)" "4 * remaining p + 3 \<le> n" for p
    unfolding pl_ok_def using list_at[OF that] by (auto intro: ok_weaken)
  have pel_at: "pel_ok (parse_elif_loop n) p" if "WF (tokens p)" "4 * remaining p + 1 \<le> n" for p
    unfolding pel_ok_def using elif_at[OF that] by auto

  have 1: "ok (parse_list (Suc n) p) p (list_post p)"
    if wf: "WF (tokens p)" and fu: "4 * remaining p + 3 \<le> Suc n" for p
  proof -
    have f2: "4 * remaining p + 2 \<le> n" "4 * remaining p + 1 \<le> n" using fu by simp_all
    note pp = pipe_at[OF wf f2(1)]
    note ll = loop_at[OF wf f2(2)]
    show ?thesis
      unfolding parse_list.simps
      by (rule ok_skip_bind[OF wf ext_refl])
         (auto intro!: ok_bind_at[OF _ pp] ok_tail[OF _ ll]
               simp: list_post_def loop_post_def node_post_def)
  qed

  have 2: "ok (parse_list_loop (Suc n) p left) p (loop_post left)"
    if wf: "WF (tokens p)" and fu: "4 * remaining p + 1 \<le> Suc n" for p left
  proof -
    have br: "ok (skip_newlines (snd (advance p)) \<bind>
                (\<lambda>p1. if \<not> at_command_start p1 then Some (l0, p1)
                      else parse_pipeline n p1 \<bind>
                           (\<lambda>(right, p2). if had_error p2 then Some (None, p2)
                                           else parse_list_loop n p2 (mk right))))
              p (loop_post left)"
      if ne: "tk_type (cur_token p) \<noteq> TOK_EOF" and l0: "left \<noteq> None \<longrightarrow> l0 \<noteq> None"
        and mk: "\<And>r. mk r \<noteq> None" for l0 mk
    proof -
      let ?p1 = "snd (advance p)"
      have wf1: "WF (tokens ?p1)" using wf by simp
      have f1: "4 * remaining ?p1 + 2 \<le> n" "4 * remaining ?p1 + 1 \<le> n"
        using remaining_advance[OF wf ne] fu by simp_all
      note pp = pipe_at[OF wf1 f1(1)]
      note ll = loop_at[OF wf1 f1(2)]
      show ?thesis
        apply (rule ok_ext_left[OF _ ext_advance[OF ext_refl]])
        apply (rule ok_skip_bind[OF wf1 ext_refl])
        using l0 mk
        by (auto intro!: ok_bind_at[OF _ pp] ok_tail[OF _ ll]
                 simp: loop_post_def node_post_def)
    qed
    show ?thesis
      unfolding parse_list_loop.simps
      by (auto simp: check_def intro!: br) (simp_all add: loop_post_def)
  qed

  have 3: "ok (parse_pipeline (Suc n) p) p node_post"
    if wf: "WF (tokens p)" and fu: "4 * remaining p + 2 \<le> Suc n" for p
  proof -
    have f1: "4 * remaining p + 1 \<le> n" using fu by simp
    note cc = cmd_at[OF wf f1]
    note pl = ploop_at[OF wf f1]
    show ?thesis
      unfolding parse_pipeline.simps Let_def
      by (auto intro!: ok_bind_at[OF _ cc] ok_bind_at[OF _ pl] ext_advance split: option.split)
  qed

  have 4: "ok (parse_pipeline_loop (Suc n) p cmds) p node_post"
    if wf: "WF (tokens p)" and fu: "4 * remaining p + 1 \<le> Suc n" for p cmds
  proof (cases "check p TOK_PIPE")
    case False
    then show ?thesis by (simp add: match_tok_def)
  next
    case True
    let ?p1 = "snd (advance p)"
    have ne: "tk_type (cur_token p) \<noteq> TOK_EOF" using True by (simp add: check_def)
    have wf1: "WF (tokens ?p1)" using wf by simp
    have f1: "4 * remaining ?p1 + 1 \<le> n"
      using remaining_advance[OF wf ne] fu by simp
    note cc = cmd_at[OF wf1 f1]
    note pl = ploop_at[OF wf1 f1]
    have "ok (skip_newlines ?p1 \<bind>
               (\<lambda>p2. parse_command n p2 \<bind>
                  (\<lambda>(cmd, p3). if had_error p3 then Some (None, p3)
                                 else parse_pipeline_loop n p3 (cmds @ [cmd])))) ?p1 node_post"
      by (rule ok_skip_bind[OF wf1 ext_refl])
         (auto intro!: ok_bind_at[OF _ cc] ok_tail[OF _ pl])
    then show ?thesis
      using True by (simp add: match_tok_def ok_ext_left[OF _ ext_advance[OF ext_refl]])
  qed

  have 5: "ok (parse_command (Suc n) p) p node_post"
    if wf: "WF (tokens p)" and fu: "4 * remaining p + 1 \<le> Suc n" for p
  proof -
    let ?t = "tk_type (cur_token p)"
    let ?p1 = "snd (advance p)"
    have wf1: "WF (tokens ?p1)" using wf by simp
    have adv: "4 * remaining ?p1 + 3 \<le> n" "4 * remaining ?p1 + 1 \<le> n" if "?t \<noteq> TOK_EOF"
      using remaining_advance[OF wf that] fu by simp_all
    have e1: "ext p ?p1" by (simp add: ext_advance)
    have c_if: "ok (parse_if (parse_list n) (parse_elif_loop n) ?p1) p node_post" if "?t = TOK_IF"
      using parse_if_ok[OF wf1 pl_at[OF wf1] pel_at[OF wf1]] adv that e1
      by (auto intro: ok_ext_left)
    have c_while: "ok (parse_while (parse_list n) ?p1) p node_post" if "?t = TOK_WHILE"
      using parse_while_ok[OF wf1 pl_at[OF wf1]] adv that e1 by (auto intro: ok_ext_left)
    have c_for: "ok (parse_for (parse_list n) ?p1) p node_post" if "?t = TOK_FOR"
      using parse_for_ok[OF wf1 pl_at[OF wf1]] adv that e1 by (auto intro: ok_ext_left)
    have c_fun: "ok (parse_function (parse_list n) ?p1) p node_post" if "?t = TOK_FUNCTION"
      using parse_function_ok[OF wf1 pl_at[OF wf1]] adv that e1 by (auto intro: ok_ext_left)
    have c_grp: "ok (parse_group (parse_list n) cl mk p) p node_post"
      if "?t = TOK_LBRACE \<or> ?t = TOK_LPAREN" for cl mk
      using parse_group_ok[OF wf pl_at[OF wf1]] adv that by auto
    have c_fdef: "ok (parse_function_body (parse_list n) name (snd (advance (snd (advance ?p1))))) p node_post"
      if "?t = TOK_WORD" for name
    proof -
      let ?p3 = "snd (advance (snd (advance ?p1)))"
      have e3: "ext ?p1 ?p3" by (intro ext_advance ext_refl)
      have wf3: "WF (tokens ?p3)" using wf by simp
      have "4 * remaining ?p3 + 3 \<le> n" using adv(1) that remaining_ext[OF e3] by simp
      from parse_function_body_ok[OF wf3 pl_at[OF wf3 this]] ext_trans[OF e1 e3]
      show ?thesis by (rule ok_ext_left)
    qed
    show ?thesis
      unfolding parse_command.simps Let_def
      using c_if c_while c_for c_fun c_grp c_fdef parse_simple_cmd_ok[OF wf]
      by (auto simp: case_prod_unfold intro!: ext_parser_error_at)
  qed

  have 6: "ok (parse_elif_loop (Suc n) p acc) p node_post"
    if wf: "WF (tokens p)" and fu: "4 * remaining p + 1 \<le> Suc n" for p acc
  proof (cases "check p TOK_ELIF")
    case False
    then show ?thesis by simp
  next
    case True
    let ?p1 = "snd (advance p)"
    have ne: "tk_type (cur_token p) \<noteq> TOK_EOF" using True by (simp add: check_def)
    have wf1: "WF (tokens ?p1)" using wf by simp
    have f1: "4 * remaining ?p1 + 3 \<le> n" "4 * remaining ?p1 + 1 \<le> n"
      using remaining_advance[OF wf ne] fu by simp_all
    note el = elif_at[OF wf1 f1(2)]
    have "ok (parse_if_clause (parse_list n) ?p1 \<bind>
               (\<lambda>(cl, p1). case cl of None \<Rightarrow> Some (None, p1)
                            | Some c \<Rightarrow> parse_elif_loop n p1 (acc @ [c]))) ?p1 node_post"
      by (auto intro!: parse_if_clause_bind[OF wf1 pl_at[OF wf1 f1(1)]] ok_tail[OF _ el]
               split: option.split)
    then show ?thesis
      using True by (simp add: ok_ext_left[OF _ ext_advance[OF ext_refl]])
  qed

  show ?case using 1 2 3 4 5 6 by blast
qed

subsection \<open>The outcomes of parsing\<close>

text \<open>The first token that is not a NEWLINE is EOF: the line holds no command.\<close>

definition blank_program :: "Token list \<Rightarrow> bool" where
  "blank_program T = (tk_type (hd (dropWhile (\<lambda>t. tk_type t = TOK_NEWLINE) T)) = TOK_EOF)"

lemma skn_unfold:
  assumes "WF (tokens p)"
  shows "skn p = (if check p TOK_NEWLINE then skn (snd (advance p)) else p)"
proof -
  have "WF (tokens (snd (advance p)))" using assms by simp
  from skip_newlines_skn[OF this] skip_newlines_skn[OF assms]
  show ?thesis by (subst (asm) (2) skip_newlines.simps) (auto split: if_splits)
qed

lemma skn_cur_token:
  "WF (tokens p) \<Longrightarrow> ppos p < length (tokens p) \<Longrightarrow>
     tk_type (cur_token (skn p)) =
       tk_type (hd (dropWhile (\<lambda>t. tk_type t = TOK_NEWLINE) (drop (ppos p) (tokens p))))"
proof (induction "length (tokens p) - ppos p" arbitrary: p rule: less_induct)
  case less
  have d: "drop (ppos p) (tokens p) = tokens p ! ppos p # drop (Suc (ppos p)) (tokens p)"
    using less.prems(2) by (simp add: Cons_nth_drop_Suc)
  have c: "cur_token p = tokens p ! ppos p" using less.prems(2) by (simp add: cur_token_def)
  show ?case
  proof (cases "check p TOK_NEWLINE")
    case False
    then show ?thesis using skn_unfold[OF less.prems(1)] d c by (simp add: check_def)
  next
    case True
    let ?q = "snd (advance p)"
    have "tokens p ! ppos p \<noteq> last (tokens p)"
      using True c less.prems(1) by (auto simp: check_def WF_def)
    then have "ppos p \<noteq> length (tokens p) - 1"
      using less.prems by (auto simp: last_conv_nth WF_def)
    then have lt: "Suc (ppos p) < length (tokens p)" using less.prems(2) by simp
    have q: "ppos ?q = Suc (ppos p)" "tokens ?q = tokens p"
      using less.prems(2) by (simp_all add: advance_ppos)
    have "length (tokens ?q) - ppos ?q < length (tokens p) - ppos p" using q lt by simp
    from less.hyps[OF this] less.prems(1) lt q
    have "tk_type (cur_token (skn ?q)) =
            tk_type (hd (dropWhile (\<lambda>t. tk_type t = TOK_NEWLINE) (drop (Suc (ppos p)) (tokens p))))"
      by simp
    then show ?thesis
      using skn_unfold[OF less.prems(1)] True d c by (simp add: check_def)
  qed
qed

lemma skn_idem: "WF (tokens p) \<Longrightarrow> skn (skn p) = skn p"
  using skn_unfold[of "skn p"] skn_fields[of p] by simp

lemma parse_program_outcomes:
  assumes wf: "WF T" and fuel: "4 * length T + 3 \<le> fuel"
  shows "\<exists>root p'. parser_parse fuel (parser_init T) = Some (root, p') \<and>
           (if blank_program T
            then root = None \<and> \<not> had_error p' \<and> perror p' = None
            else (root \<noteq> None \<and> \<not> had_error p' \<and> perror p' = None) \<or>
                 (root = None \<and> had_error p' \<and> (\<exists>m. perror p' = Some m \<and> m \<noteq> [])))"
proof -
  define p0 where "p0 = parser_init T"
  have p0: "tokens p0 = T" "ppos p0 = 0" "\<not> had_error p0" "perror p0 = None"
    by (simp_all add: p0_def parser_init_def)
  have wf0: "WF (tokens p0)" using wf p0 by simp
  define p where "p = skn p0"
  have pf: "tokens p = T" "\<not> had_error p" "perror p = None" "\<not> check p TOK_NEWLINE"
    using skn_fields[OF wf0] p0 by (simp_all add: p_def)
  have wfp: "WF (tokens p)" using wf pf by simp
  have sk0: "skip_newlines p0 = Some p" using skip_newlines_skn[OF wf0] by (simp add: p_def)
  have skp: "skn p = p" using skn_idem[OF wf0] by (simp add: p_def)
  have skp': "skip_newlines p = Some p" using skip_newlines_skn[OF wfp] skp by simp
  have "0 < length T" using wf by (simp add: WF_def)
  then have bl: "check p TOK_EOF = blank_program T"
    using skn_cur_token[OF wf0] p0 by (simp add: check_def p_def blank_program_def)
  have pinvp: "pinv p" using pf by (simp add: pinv_def)
  show ?thesis
  proof (cases "check p TOK_EOF")
    case True
    then have "parser_parse fuel (parser_init T) = Some (None, p)"
      by (simp add: parser_parse_def parse_program_def p0_def[symmetric] sk0 skp')
    then show ?thesis using True bl pf by simp
  next
    case False
    have "4 * remaining p + 3 \<le> fuel" using fuel pf by (simp add: remaining_def)
    with parse_knot[of fuel] wfp have "ok (parse_list fuel p) p (list_post p)" by blast
    then obtain root p1 where pl: "parse_list fuel p = Some (root, p1)" "ext p p1"
      "list_post p root p1"
      by (auto simp: ok_def)
    have wf1: "WF (tokens p1)" using wfp pl(2) by (simp add: ext_def)
    have pinv1: "pinv p1" using pinvp pl(2) by (simp add: ext_def)
    show ?thesis
    proof (cases "had_error p1")
      case True
      then have "parser_parse fuel (parser_init T) = Some (None, p1)"
        using False pl(1) by (simp add: parser_parse_def parse_program_def p0_def[symmetric] sk0)
      then show ?thesis using True pinv1 bl False by (auto simp: pinv_def)
    next
      case noerr: False
      define p2 where "p2 = skn p1"
      have sk1: "skip_newlines p1 = Some p2" using skip_newlines_skn[OF wf1] by (simp add: p2_def)
      have p2f: "had_error p2 = had_error p1" "perror p2 = perror p1"
        using skn_fields[OF wf1] by (simp_all add: p2_def)
      show ?thesis
      proof (cases "check p2 TOK_EOF")
        case True
        then have r: "parser_parse fuel (parser_init T) = Some (root, p2)"
          using False pl(1) noerr sk1
          by (simp add: parser_parse_def parse_program_def p0_def[symmetric] sk0)
        have "root \<noteq> None"
        proof
          assume "root = None"
          then have "p1 = p" using pl(3) noerr skp by (simp add: list_post_def)
          then have "p2 = p" using skp by (simp add: p2_def)
          then show False using True False by simp
        qed
        then show ?thesis using r noerr p2f pinv1 bl False by (auto simp: pinv_def)
      next
        case ne: False
        let ?pe = "parser_error_at p2 (cur_token p2) ''unexpected token after end of command''"
        have r: "parser_parse fuel (parser_init T) = Some (None, ?pe)"
          using False pl(1) noerr sk1 ne
          by (simp add: parser_parse_def parse_program_def p0_def[symmetric] sk0)
        have "pinv p2" using pinv1 p2f by (simp add: pinv_def)
        then have "pinv ?pe" by (rule parser_error_at_pinv)
        then show ?thesis using r bl False by (auto simp: pinv_def)
      qed
    qed
  qed
qed

lemma lexer_tokenize_WF:
  assumes "lexer_tokenize (lexer_init L) = (T, lx)" "error lx = None"
  shows "WF T"
proof -
  have "error (lexer_init L) = None" by (simp add: lexer_init_def)
  from lexer_tokenize_loop_last[OF assms(1)[unfolded lexer_tokenize_def] this] assms(2)
  show ?thesis by (simp add: WF_def)
qed

text \<open>
  Claim C7, as the code has it.  Let \<open>T\<close> be the token list the lexer returns for a line
  \<open>L\<close> without recording an error.  Then the parser returns (any depth from
  \<open>4 * length T + 3\<close> on is enough), and
  \<^item> if the first token of \<open>T\<close> that is not a NEWLINE is EOF, it yields no AST and records
    no error: this third outcome exists, and the empty line is an instance;
  \<^item> otherwise it either yields an AST and records no error, or yields no AST and records
    an error whose message is not empty.
  The root of an AST is a value of the datatype \<open>ASTNode\<close>, whose constructors are
  the declared variants.
\<close>

theorem parser_parse_outcomes:
  assumes "lexer_tokenize (lexer_init L) = (T, lx)" "error lx = None" "4 * length T + 3 \<le> fuel"
  shows "\<exists>root p'. parser_parse fuel (parser_init T) = Some (root, p') \<and>
           (if blank_program T
            then root = None \<and> \<not> had_error p' \<and> perror p' = None
            else (root \<noteq> None \<and> \<not> had_error p' \<and> perror p' = None) \<or>
                 (root = None \<and> had_error p' \<and> (\<exists>m. perror p' = Some m \<and> m \<noteq> [])))"
  using parse_program_outcomes[OF lexer_tokenize_WF[OF assms(1,2)] assms(3)] .

theorem parser_parse_outcomes_witness:
  "\<exists>root p'. parser_parse 11 (parser_init (fst (lexer_tokenize (lexer_init (Some ''ls''))))) =
                 Some (root, p') \<and> root \<noteq> None \<and> \<not> had_error p' \<and> perror p' = None"
proof -
  obtain T lx where t: "lexer_tokenize (lexer_init (Some ''ls'')) = (T, lx)"
    by (cases "lexer_tokenize (lexer_init (Some ''ls''))")
  have e: "error (snd (lexer_tokenize (lexer_init (Some ''ls'')))) = None" by code_simp
  have l: "length (fst (lexer_tokenize (lexer_init (Some ''ls'')))) = 2" by code_simp
  have b: "\<not> blank_program (fst (lexer_tokenize (lexer_init (Some ''ls''))))" by code_simp
  have h: "\<not> had_error (snd (the (parser_parse 11 (parser_init (fst (lexer_tokenize (lexer_init (Some ''ls''))))))))"
    by code_simp
  from parser_parse_outcomes[OF t, of 11] e l b h t show ?thesis by auto
qed

text \<open>The claim as stated fails on the empty line: no AST and no error.\<close>

theorem parser_no_ast_no_error_counterexample:
  "parser_parse 7 (parser_init (fst (lexer_tokenize (lexer_init (Some []))))) =
     Some (None, \<lparr>tokens = [make_token TOK_EOF None 1 1], ppos = 0, perror = None,
                  had_error = False\<rparr>)"
  by code_simp

section \<open>Execution\<close>

text \<open>
  A world, a shell and a process to run examples in: every file opens, no program is found
  (a foreground job ends with status 127), no user and no path matches, and the shell has
  no variable.
\<close>

definition test_world :: World where
  "test_world =
     \<lparr>sys_open = (\<lambda>s f fl. (True, s)), sys_fd_limit = 1024,
      sys_exec = (\<lambda>s a e e'. Some 2),
      sys_getpwnam = (\<lambda>s u. None), sys_glob = (\<lambda>s p. []), sys_strerror = (\<lambda>s. ''error''),
      sys_fork = (\<lambda>s. (100, s)), sys_job_add = (\<lambda>s pg c fg. (Some 1, s)),
      sys_wait_foreground = (\<lambda>s j. (127, [], s)),
      sys_pipeline_start = (\<lambda>s c. (None, [], s)), sys_ptr = (\<lambda>n. ''0x0''),
      builtin_handler = (\<lambda>n sh a. (0, sh))\<rparr>"

definition test_shell :: Shell where
  "test_shell =
     \<lparr>env = Map.empty, environ = Map.empty, last_status = 0, shell_pid = 1,
      interactive = False, pos_params = None, pos_count = 0, stdout_text = [],
      stderr_text = [], os = 0\<rparr>"

definition test_process :: Process where
  "test_process =
     \<lparr>fd_table = [Some (''tty'', O_RDONLY), Some (''tty'', O_WRONLY_CREAT_APPEND),
                  Some (''tty'', O_WRONLY_CREAT_APPEND)],
      diag_text = [], p_os = 0\<rparr>"

subsection \<open>And, Or\<close>





subsection \<open>A bare assignment\<close>

definition foo_tokens :: "Token list" where
  "foo_tokens =
     [\<lparr>tk_type = TOK_WORD, tk_value = Some ''FOO=bar'', redir_fd = - 1, tk_line = 1, tk_col = 1\<rparr>,
      \<lparr>tk_type = TOK_EOF, tk_value = None, redir_fd = - 1, tk_line = 1, tk_col = 8\<rparr>]"

lemma lex_foo:
  "lexer_tokenize (lexer_init (Some ''FOO=bar'')) =
     (foo_tokens, \<lparr>input = ''FOO=bar'', pos = 7, len = 7, line = 1, col = 8, error = None\<rparr>)"
  by code_simp

lemma parse_foo:
  "parser_parse (Suc (Suc (Suc n))) (parser_init foo_tokens) =
     Some (Some (NODE_COMMAND \<lparr>argv = [Some ''FOO=bar''], redirs = [], assignments = []\<rparr>),
           \<lparr>tokens = foo_tokens, ppos = 1, perror = None, had_error = False\<rparr>)"
  by (simp add: parser_parse_def parse_program_def parser_init_def skip_newlines.simps
      check_def cur_token_def at_command_start_def is_redir_def parse_simple_cmd_def
      parse_simple_cmd_loop.simps advance_def foo_tokens_def match_tok_def)

lemma exec_foo:
  "executor_exec_command w sh \<lparr>argv = [Some ''FOO=bar''], redirs = [], assignments = []\<rparr> =
     (case c_fork w sh of
        (pid, sh2) \<Rightarrow>
          if pid < 0 then (1, (perror_sh w sh2 ''vsh: fork'')\<lparr>last_status := 1\<rparr>)
          else
            (case job_add w sh2 pid ''FOO=bar'' True of
               (job, sh3) \<Rightarrow>
                 (case job_wait_foreground w sh3 job of
                    (status, sh4) \<Rightarrow> (status, sh4\<lparr>last_status := status\<rparr>))))"
  by (simp add: executor_exec_command_def expand_word_def env_expand_def char_at_def
      builtins_is_builtin_def builtin_table_def split: prod.splits)

lemma exec_foo_env:
  "env (snd (executor_exec_command w sh
       \<lparr>argv = [Some ''FOO=bar''], redirs = [], assignments = []\<rparr>)) = env sh"
  by (auto simp: exec_foo c_fork_def job_add_def job_wait_foreground_def perror_sh_def
      print_err_def split: prod.splits option.splits)

lemma parse_redirection_assignments:
  "assignments (fst (parse_redirection p cmd)) = assignments cmd"
  by (auto simp: parse_redirection_def parse_redirection_target_def split: prod.splits option.splits)

lemma parse_simple_cmd_loop_assignments:
  assumes "parse_simple_cmd_loop p cmd = Some r"
  shows "assignments (fst r) = assignments cmd"
proof (rule parse_simple_cmd_loop.raw_induct[where P = "\<lambda>p cmd r. assignments (fst r) = assignments cmd",
      OF _ assms], goal_cases)
  case (1 f p cmd r)
  then show ?case
    using parse_redirection_assignments[of p cmd]
    by (auto split: if_splits prod.splits)
qed

lemma parse_simple_cmd_assignments:
  "parse_simple_cmd p = Some (Some (NODE_COMMAND cmd), p') \<Longrightarrow> assignments cmd = []"
  using parse_simple_cmd_loop_assignments[of p "\<lparr>argv = [], redirs = [], assignments = []\<rparr>"]
  by (auto simp: parse_simple_cmd_def split: Option.bind_splits if_splits)

lemma exec_command_assignments:
  "executor_exec_command w sh \<lparr>argv = [], redirs = rs, assignments = [Some ''FOO=bar'']\<rparr> =
     (0, (env_set sh (Some ''FOO'') (Some ''bar'') False)\<lparr>last_status := 0\<rparr>)"
  by (simp add: executor_exec_command_def env_parse_assignment_def env_expand_def isalpha_def
      isalnum_def isdigit_def)

text \<open>
  Claim C2 fails in the code.  The line \<^verbatim>\<open>FOO=bar\<close> is one WORD token, and \<^verbatim>\<open>parse_simple_cmd\<close>
  puts every WORD into \<^verbatim>\<open>argv\<close>: it never fills \<^verbatim>\<open>assignments\<close>, whatever the tokens
  (\<open>parse_simple_cmd_assignments\<close>).  So the executor, whose
  branch for a command of assignments only would set \<^verbatim>\<open>FOO\<close> unexported and return 0
  (\<open>exec_command_assignments\<close>), is not in that branch: it expands the word, finds no
  builtin of that name and forks to run \<^verbatim>\<open>FOO=bar\<close> as an external command.  For every
  world and shell, and every bound from 3 on, executing the line returns what the fork and
  the wait for the job give (status 1 when the fork fails), and the environment table of
  the shell is as before: \<^verbatim>\<open>FOO\<close> is not set.
\<close>

theorem bare_assignment_runs_external_command:
  "shell_exec_expanded w (Suc (Suc (Suc n))) sh ''FOO=bar'' =
     Some (case c_fork w sh of
             (pid, sh2) \<Rightarrow>
               if pid < 0 then (1, (perror_sh w sh2 ''vsh: fork'')\<lparr>last_status := 1\<rparr>)
               else
                 (case job_add w sh2 pid ''FOO=bar'' True of
                    (job, sh3) \<Rightarrow>
                      (case job_wait_foreground w sh3 job of
                         (status, sh4) \<Rightarrow> (status, sh4\<lparr>last_status := status\<rparr>))))
   \<and> map_option (\<lambda>r. env (snd r)) (shell_exec_expanded w (Suc (Suc (Suc n))) sh ''FOO=bar'')
       = Some (env sh)"
proof -
  let ?cmd = "\<lparr>argv = [Some ''FOO=bar''], redirs = [], assignments = []\<rparr>"
  have run: "shell_exec_expanded w (Suc (Suc (Suc n))) sh ''FOO=bar'' =
      Some (case executor_exec_command w sh ?cmd of
              (status, sh1) \<Rightarrow> (status, sh1\<lparr>last_status := status\<rparr>))"
    by (simp add: shell_exec_expanded_def lex_foo parse_foo split: prod.splits)
  have idem: "(case executor_exec_command w sh ?cmd of
              (status, sh1) \<Rightarrow> (status, sh1\<lparr>last_status := status\<rparr>)) =
        executor_exec_command w sh ?cmd"
    by (simp add: exec_foo split: prod.splits)
  show ?thesis
    using exec_foo_env[of w sh] by (simp add: run idem exec_foo[symmetric])
qed

subsection \<open>The error construct of a variable\<close>

text \<open>
  \<open>is_brace_name\<close> is the test of the loop of \<^verbatim>\<open>expand_brace\<close> that reads the name,
  \<open>skip_close\<close> is its last statement, and \<open>brace_error_text name msg\<close> is the line that it
  prints in the case \<^verbatim>\<open>'?'\<close>.
\<close>

definition is_brace_name :: "char \<Rightarrow> bool" where
  "is_brace_name c = (c \<noteq> CHR ''}'' \<and> c \<noteq> CHR '':'')"

definition skip_close :: "string \<Rightarrow> string" where
  "skip_close p = (if char_at p 0 = CHR ''}'' then tl p else p)"

definition brace_error_text :: "string \<Rightarrow> string \<Rightarrow> string" where
  "brace_error_text name msg =
     ''vsh: '' @ name @ '': '' @ (if msg = [] then ''parameter null or not set'' else msg)
     @ [CHR 0x0A]"

text \<open>
  One turn of the \<^verbatim>\<open>while\<close> loop of \<^verbatim>\<open>env_expand\<close>, on the shell, the rest of the input and
  the result buffer; its \<^verbatim>\<open>break\<close> is the end of the input.  \<open>env_expand_turns k\<close> is \<open>k\<close>
  turns: the loop \<^emph>\<open>arrives\<close> at a place in the word when some number of turns leads there.
\<close>

definition env_expand_turn :: "Shell \<Rightarrow> string \<Rightarrow> string \<Rightarrow> Shell \<times> string \<times> string" where
  "env_expand_turn sh p result =
     (case p of
        [] \<Rightarrow> (sh, [], result)
      | c # cs \<Rightarrow>
          if c \<noteq> CHR ''$'' then (sh, cs, result @ [c])
          else
            (case cs of
               [] \<Rightarrow> (sh, [], result @ [CHR ''$''])
             | d # ds \<Rightarrow>
                 if d = CHR ''$'' then (sh, ds, result @ show_int (shell_pid sh))
                 else if d = CHR ''?'' then (sh, ds, result @ show_int (last_status sh))
                 else if d = CHR ''#'' then (sh, ds, result @ show_int (pos_count sh))
                 else if d = CHR ''!'' then (sh, ds, result)
                 else if isdigit d then
                   (let idx = int (of_char d) - 48
                    in if idx = 0 then (sh, ds, result @ ''vsh'')
                       else (case pos_params sh of
                               Some ps \<Rightarrow>
                                 if idx \<le> pos_count sh
                                 then (sh, ds, result @ (if nat (idx - 1) < length ps
                                                          then ps ! nat (idx - 1) else []))
                                 else (sh, ds, result)
                             | None \<Rightarrow> (sh, ds, result)))
                 else if d = CHR ''{'' then
                   (case expand_brace sh ds result of
                      (p', sh', result') \<Rightarrow> (sh', p', result'))
                 else if isalpha d \<or> d = CHR ''_'' then
                   (let is_var = (\<lambda>x. isalnum x \<or> x = CHR ''_'');
                        varname = takeWhile is_var (d # ds)
                    in (sh, dropWhile is_var (d # ds),
                        result @ (case env_get (env sh) varname of None \<Rightarrow> [] | Some v \<Rightarrow> v)))
                 else (sh, ds, result @ [CHR ''$'', d])))"

fun env_expand_turns :: "nat \<Rightarrow> Shell \<Rightarrow> string \<Rightarrow> string \<Rightarrow> Shell \<times> string \<times> string" where
  "env_expand_turns 0 sh p result = (sh, p, result)"
| "env_expand_turns (Suc k) sh p result =
     (case env_expand_turn sh p result of
        (sh', p', result') \<Rightarrow> env_expand_turns k sh' p' result')"

lemma env_expand_loop_turn:
  "env_expand_loop sh p result =
     (case env_expand_turn sh p result of
        (sh', p', result') \<Rightarrow> env_expand_loop sh' p' result')"
proof (cases p)
  case Nil
  then show ?thesis
    by (simp add: env_expand_turn_def)
next
  case (Cons c cs)
  then show ?thesis
    by (cases cs)
       (auto simp: env_expand_turn_def Let_def split: option.splits prod.splits)
qed

lemma env_expand_loop_turns:
  "env_expand_loop sh p result =
     (case env_expand_turns k sh p result of
        (sh', p', result') \<Rightarrow> env_expand_loop sh' p' result')"
proof (induction k arbitrary: sh p result)
  case 0
  then show ?case by simp
next
  case (Suc k)
  obtain sh' p' r' where t: "env_expand_turn sh p result = (sh', p', r')"
    by (cases "env_expand_turn sh p result")
  have "env_expand_loop sh p result = env_expand_loop sh' p' r'"
    using env_expand_loop_turn[of sh p result] t by simp
  then show ?case
    using Suc.IH[of sh' p' r'] t by simp
qed

text \<open>Text without \<^verbatim>\<open>$\<close> is copied, one character a turn: the loop arrives at what follows it.\<close>

lemma env_expand_turns_plain:
  "CHR ''$'' \<notin> set pre \<Longrightarrow>
   env_expand_turns (length pre) sh (pre @ s) result = (sh, s, result @ pre)"
  by (induction pre arbitrary: result) (auto simp: env_expand_turn_def)

subsubsection \<open>What is written to standard error stays there\<close>

definition stderr_ext :: "Shell \<Rightarrow> Shell \<Rightarrow> bool" where
  "stderr_ext sh sh' = (\<exists>t. stderr_text sh' = stderr_text sh @ t)"

lemma stderr_ext_refl [simp]: "stderr_ext sh sh"
  by (simp add: stderr_ext_def)

lemma stderr_ext_trans: "stderr_ext a b \<Longrightarrow> stderr_ext b c \<Longrightarrow> stderr_ext a c"
  by (auto simp: stderr_ext_def)

lemma stderr_ext_print_err [simp]: "stderr_ext sh (print_err sh t)"
  by (simp add: stderr_ext_def print_err_def)

lemma stderr_ext_env_set [simp]: "stderr_ext sh (env_set sh k v e)"
  by (simp add: stderr_ext_def env_set_def Let_def split: option.splits)

lemma stderr_ext_expand_brace:
  "stderr_ext sh (fst (snd (expand_brace sh p result)))"
  by (simp add: expand_brace_def Let_def case_prod_unfold)

lemma stderr_ext_turn:
  "stderr_ext sh (fst (env_expand_turn sh p result))"
  using stderr_ext_expand_brace
  by (auto simp: env_expand_turn_def Let_def case_prod_unfold split: list.splits option.splits)

lemma stderr_ext_turns:
  "stderr_ext sh (fst (env_expand_turns k sh p result))"
proof (induction k arbitrary: sh p result)
  case 0
  then show ?case by simp
next
  case (Suc k)
  show ?case
    using stderr_ext_trans[OF stderr_ext_turn[of sh p result]
        Suc.IH[of "fst (env_expand_turn sh p result)" "fst (snd (env_expand_turn sh p result))"
                  "snd (snd (env_expand_turn sh p result))"]]
    by (simp add: case_prod_unfold)
qed

lemma stderr_ext_loop:
  "stderr_ext sh (fst (env_expand_loop sh p result))"
proof (induction "length p" arbitrary: sh p result rule: less_induct)
  case less
  show ?case
  proof (cases p)
    case Nil
    then show ?thesis by simp
  next
    case (Cons c cs)
    obtain sh' p' r' where t: "env_expand_turn sh p result = (sh', p', r')"
      by (cases "env_expand_turn sh p result")
    have len: "length p' < length p"
      using t Cons expand_brace_length[of sh "tl cs" result]
        length_dropWhile_le[of "\<lambda>x. isalnum x \<or> x = CHR ''_''" cs]
      by (auto simp: env_expand_turn_def Let_def case_prod_unfold less_Suc_eq_le
          split: list.splits option.splits if_splits)
    have "stderr_ext sh sh'"
      using stderr_ext_turn[of sh p result] t by simp
    moreover have "stderr_ext sh' (fst (env_expand_loop sh' p' r'))"
      using less[OF len] .
    ultimately show ?thesis
      using env_expand_loop_turn[of sh p result] t
      by (auto intro: stderr_ext_trans)
  qed
qed

subsubsection \<open>The construct\<close>

lemma is_brace_name_eq: "(\<lambda>c. c \<noteq> CHR ''}'' \<and> c \<noteq> CHR '':'') = is_brace_name"
  by (simp add: fun_eq_iff is_brace_name_def)

lemma expand_brace_error:
  assumes "dropWhile is_brace_name start = CHR '':'' # CHR ''?'' # q"
    and "env_get (env sh) (takeWhile is_brace_name start) = None \<or>
         env_get (env sh) (takeWhile is_brace_name start) = Some []"
  shows "expand_brace sh start result =
           (skip_close (fst (read_brace_body q 0 [])),
            print_err sh (brace_error_text (takeWhile is_brace_name start)
                            (snd (read_brace_body q 0 []))),
            result)"
  using assms
  unfolding expand_brace_def Let_def is_brace_name_eq
  by (auto simp: char_at_def brace_error_text_def skip_close_def case_prod_unfold)

lemma env_expand_loop_brace_error:
  assumes "dropWhile is_brace_name start = CHR '':'' # CHR ''?'' # q"
    and "env_get (env sh) (takeWhile is_brace_name start) = None \<or>
         env_get (env sh) (takeWhile is_brace_name start) = Some []"
  shows "env_expand_loop sh (CHR ''$'' # CHR ''{'' # start) result =
           env_expand_loop
             (print_err sh (brace_error_text (takeWhile is_brace_name start)
                              (snd (read_brace_body q 0 []))))
             (skip_close (fst (read_brace_body q 0 []))) result"
  using expand_brace_error[OF assms, of result]
  by (simp add: isdigit_def)

text \<open>
  The message is the text up to the closing brace that matches: for a text without braces,
  the text up to the next \<^verbatim>\<open>}\<close>.
\<close>

lemma read_brace_body_plain:
  "CHR ''}'' \<notin> set msg \<Longrightarrow> CHR ''{'' \<notin> set msg \<Longrightarrow>
   read_brace_body (msg @ CHR ''}'' # rest) 0 acc = (CHR ''}'' # rest, acc @ msg)"
proof (induction msg arbitrary: acc)
  case Nil
  then show ?case by simp
next
  case (Cons c cs)
  then have "char_at (cs @ CHR ''}'' # rest) 0 \<noteq> CHR ''{''"
    by (cases cs) (auto simp: char_at_def)
  then show ?case
    using Cons by auto
qed

text \<open>
  A construct in the body of another one is not expanded: the body is copied as it is
  written, and nothing is printed.
\<close>

lemma nested_brace_error_not_expanded:
  "env_get (env sh) ''Y'' = None \<Longrightarrow>
   env_expand sh (Some ''${Y:-${X:?oops}}'') = (sh, ''${X:?oops}'')"
  by (simp add: env_expand_def expand_brace_def isdigit_def char_at_def)

subsubsection \<open>The command\<close>

lemma expand_word_not_Nil: "snd (expand_word w sh x) \<noteq> []"
  by (simp add: expand_word_def Let_def case_prod_unfold)

lemma expand_words_not_Nil:
  "xs \<noteq> [] \<or> args \<noteq> [] \<Longrightarrow> snd (expand_words w sh xs args) \<noteq> []"
proof (induction xs arbitrary: sh args)
  case Nil
  then show ?case by simp
next
  case (Cons x xs)
  show ?case
    using expand_word_not_Nil[of w sh x]
      Cons.IH[of "args @ snd (expand_word w sh x)" "fst (expand_word w sh x)"]
    by (simp add: case_prod_unfold)
qed

lemma exec_command_runs_expanded:
  assumes "argv cmd \<noteq> []"
  shows "executor_exec_command w sh cmd =
           (case expand_words w sh (argv cmd) [] of
              (sh1, args) \<Rightarrow>
                if builtins_is_builtin (hd args) then
                  (case builtins_execute w sh1 args of
                     (status, sh2) \<Rightarrow> (status, sh2\<lparr>last_status := status\<rparr>))
                else
                  (case c_fork w sh1 of
                     (pid, sh2) \<Rightarrow>
                       if pid < 0
                       then (1, (perror_sh w sh2 ''vsh: fork'')\<lparr>last_status := 1\<rparr>)
                       else
                         (case job_add w sh2 pid (hd args) True of
                            (job, sh3) \<Rightarrow>
                              (case job_wait_foreground w sh3 job of
                                 (status, sh4) \<Rightarrow> (status, sh4\<lparr>last_status := status\<rparr>)))))"
  using assms expand_words_not_Nil[of "argv cmd" "[]" w sh]
  by (simp add: executor_exec_command_def case_prod_unfold)

lemma echo_brace_error:
  assumes "dropWhile is_brace_name start = CHR '':'' # CHR ''?'' # q"
    and "env_get (env sh) (takeWhile is_brace_name start) = None \<or>
         env_get (env sh) (takeWhile is_brace_name start) = Some []"
    and "skip_close (fst (read_brace_body q 0 [])) = []"
  shows "executor_exec_command w sh
           \<lparr>argv = [Some ''echo'', Some (CHR ''$'' # CHR ''{'' # start)], redirs = [],
            assignments = []\<rparr> =
         (0, (print_out (print_err sh (brace_error_text (takeWhile is_brace_name start)
                                         (snd (read_brace_body q 0 []))))
                [CHR 0x0A])\<lparr>last_status := 0\<rparr>)"
proof -
  have b: "env_expand sh (Some (CHR ''$'' # CHR ''{'' # start)) =
           (print_err sh (brace_error_text (takeWhile is_brace_name start)
                            (snd (read_brace_body q 0 []))), [])"
    using env_expand_loop_brace_error[OF assms(1,2), of "[]"] assms(3)
    by (simp add: env_expand_def)
  have e: "env_expand sh (Some ''echo'') = (sh, ''echo'')"
    by (simp add: env_expand_def)
  show ?thesis
    by (simp add: executor_exec_command_def expand_word_def b e char_at_def
        builtins_is_builtin_def builtin_table_def builtins_execute_def builtin_echo_def
        split: prod.splits)
qed

text \<open>
  Claim C4, as the code has it.  Let the loop of \<^verbatim>\<open>env_expand\<close>, started on a word in
  the shell \<open>sh0\<close>, arrive after some turns at a construct \<^verbatim>\<open>${NAME:?message}\<close>: at a
  \<^verbatim>\<open>${\<close> followed by \<^verbatim>\<open>NAME\<close> (the characters up to the first \<^verbatim>\<open>:\<close> or \<^verbatim>\<open>}\<close>) and by
  \<^verbatim>\<open>:?\<close>, with \<^verbatim>\<open>NAME\<close> unset or empty in the shell \<open>sh\<close> of that moment.  The message is what
  \<^verbatim>\<open>read_brace_body\<close> reads after \<^verbatim>\<open>:?\<close>, the text as it is written up to the closing brace
  that matches.  Then
  \<^item> the expansion of the word is the loop going on after the closing brace, with the same
    result buffer (nothing is put into the word for the construct) and in the shell \<open>sh\<close>
    with the line \<^verbatim>\<open>vsh: NAME: message\<close> added to its standard error
    (\<^verbatim>\<open>parameter null or not set\<close> stands for an empty message);
  \<^item> the line is in what the shell has written to standard error when the expansion of
    the word ends;
  \<^item> the expansion has no result that tells a failure, and for every world and shell
    every command that has the word among its words is executed on its expanded words:
    the builtin of that name is called, or a child is forked and waited for, and the
    status of the command is the status of the builtin or of the job (1 when the fork
    fails).
\<close>

theorem brace_error_prints_and_command_runs:
  assumes "env_expand_turns k sh0 word [] = (sh, CHR ''$'' # CHR ''{'' # start, result)"
    and "dropWhile is_brace_name start = CHR '':'' # CHR ''?'' # q"
    and "env_get (env sh) (takeWhile is_brace_name start) = None \<or>
         env_get (env sh) (takeWhile is_brace_name start) = Some []"
  shows "env_expand sh0 (Some word) =
           env_expand_loop
             (print_err sh (brace_error_text (takeWhile is_brace_name start)
                              (snd (read_brace_body q 0 []))))
             (skip_close (fst (read_brace_body q 0 []))) result
         \<and> (\<exists>a b. stderr_text (fst (env_expand sh0 (Some word))) =
                     stderr_text sh0 @ a @
                     brace_error_text (takeWhile is_brace_name start)
                       (snd (read_brace_body q 0 [])) @ b)
         \<and> (\<forall>w s cmd. Some word \<in> set (argv cmd) \<longrightarrow>
               executor_exec_command w s cmd =
                 (case expand_words w s (argv cmd) [] of
                    (sh1, args) \<Rightarrow>
                      if builtins_is_builtin (hd args) then
                        (case builtins_execute w sh1 args of
                           (status, sh2) \<Rightarrow> (status, sh2\<lparr>last_status := status\<rparr>))
                      else
                        (case c_fork w sh1 of
                           (pid, sh2) \<Rightarrow>
                             if pid < 0
                             then (1, (perror_sh w sh2 ''vsh: fork'')\<lparr>last_status := 1\<rparr>)
                             else
                               (case job_add w sh2 pid (hd args) True of
                                  (job, sh3) \<Rightarrow>
                                    (case job_wait_foreground w sh3 job of
                                       (status, sh4) \<Rightarrow>
                                         (status, sh4\<lparr>last_status := status\<rparr>))))))"
proof -
  let ?line = "brace_error_text (takeWhile is_brace_name start) (snd (read_brace_body q 0 []))"
  let ?rest = "skip_close (fst (read_brace_body q 0 []))"
  have a: "env_expand sh0 (Some word) = env_expand_loop (print_err sh ?line) ?rest result"
    using env_expand_loop_turns[of sh0 word "[]" k] assms(1)
      env_expand_loop_brace_error[OF assms(2,3), of result]
    by (simp add: env_expand_def)
  obtain t1 where t1: "stderr_text sh = stderr_text sh0 @ t1"
    using stderr_ext_turns[of sh0 k word "[]"] assms(1) by (auto simp: stderr_ext_def)
  obtain t2 where t2: "stderr_text (fst (env_expand_loop (print_err sh ?line) ?rest result)) =
      stderr_text (print_err sh ?line) @ t2"
    using stderr_ext_loop[of "print_err sh ?line" ?rest result] by (auto simp: stderr_ext_def)
  have b: "\<exists>a b. stderr_text (fst (env_expand sh0 (Some word))) = stderr_text sh0 @ a @ ?line @ b"
    using a t1 t2 by (auto simp: print_err_def)
  have c: "executor_exec_command w s cmd =
             (case expand_words w s (argv cmd) [] of
                (sh1, args) \<Rightarrow>
                  if builtins_is_builtin (hd args) then
                    (case builtins_execute w sh1 args of
                       (status, sh2) \<Rightarrow> (status, sh2\<lparr>last_status := status\<rparr>))
                  else
                    (case c_fork w sh1 of
                       (pid, sh2) \<Rightarrow>
                         if pid < 0
                         then (1, (perror_sh w sh2 ''vsh: fork'')\<lparr>last_status := 1\<rparr>)
                         else
                           (case job_add w sh2 pid (hd args) True of
                              (job, sh3) \<Rightarrow>
                                (case job_wait_foreground w sh3 job of
                                   (status, sh4) \<Rightarrow>
                                     (status, sh4\<lparr>last_status := status\<rparr>)))))"
    if "Some word \<in> set (argv cmd)" for w s cmd
  proof -
    have "argv cmd \<noteq> []"
      using that by auto
    then show ?thesis
      by (rule exec_command_runs_expanded)
  qed
  show ?thesis
    using a b c by blast
qed

theorem brace_error_prints_and_command_runs_witness:
  "env_expand test_shell (Some ''$A${X:?need $Y}x'') =
     (print_err test_shell (''vsh: X: need $Y'' @ [CHR 0x0A]), ''x'')
   \<and> fst (executor_exec_command test_world test_shell
        \<lparr>argv = [Some ''echo'', Some ''$A${X:?need $Y}x''], redirs = [],
         assignments = []\<rparr>) = 0"
proof -
  have h1: "env_expand_turns (Suc 0) test_shell ''$A${X:?need $Y}x'' [] =
              (test_shell, CHR ''$'' # CHR ''{'' # ''X:?need $Y}x'', [])"
    by (simp add: env_expand_turn_def isdigit_def isalpha_def isalnum_def env_get_def
        test_shell_def)
  have h2: "dropWhile is_brace_name ''X:?need $Y}x'' = CHR '':'' # CHR ''?'' # ''need $Y}x''"
    by (simp add: is_brace_name_def)
  have h3: "env_get (env test_shell) (takeWhile is_brace_name ''X:?need $Y}x'') = None \<or>
            env_get (env test_shell) (takeWhile is_brace_name ''X:?need $Y}x'') = Some []"
    by (simp add: is_brace_name_def env_get_def test_shell_def)
  have body: "read_brace_body ''need $Y}x'' 0 [] = (''}x'', ''need $Y'')"
    by (simp add: char_at_def)
  note t = brace_error_prints_and_command_runs[OF h1 h2 h3]
  have a: "env_expand test_shell (Some ''$A${X:?need $Y}x'') =
     (print_err test_shell (''vsh: X: need $Y'' @ [CHR 0x0A]), ''x'')"
    using t by (simp add: body skip_close_def char_at_def brace_error_text_def is_brace_name_def)
  have e: "env_expand test_shell (Some ''echo'') = (test_shell, ''echo'')"
    by (simp add: env_expand_def)
  have "executor_exec_command test_world test_shell
          \<lparr>argv = [Some ''echo'', Some ''$A${X:?need $Y}x''], redirs = [], assignments = []\<rparr> =
        (case expand_words test_world test_shell [Some ''echo'', Some ''$A${X:?need $Y}x''] [] of
           (sh1, args) \<Rightarrow>
             (case builtins_execute test_world sh1 args of
                (status, sh2) \<Rightarrow> (status, sh2\<lparr>last_status := status\<rparr>)))"
    using t by (simp add: expand_word_def a e char_at_def builtins_is_builtin_def
        builtin_table_def case_prod_unfold)
  then have "fst (executor_exec_command test_world test_shell
          \<lparr>argv = [Some ''echo'', Some ''$A${X:?need $Y}x''], redirs = [], assignments = []\<rparr>) = 0"
    by (simp add: expand_word_def a e char_at_def builtins_is_builtin_def
        builtin_table_def builtins_execute_def builtin_echo_def case_prod_unfold)
  then show ?thesis
    using a by simp
qed

text \<open>
  The claim as stated fails on the line \<^verbatim>\<open>echo "${X:?oops}"\<close>: the message is printed and
  the status is 0.
\<close>

theorem brace_error_command_succeeds_counterexample:
  "(case shell_exec_expanded test_world 5 test_shell
           (''echo '' @ [CHR 0x22] @ ''${X:?oops}'' @ [CHR 0x22]) of
      None \<Rightarrow> False
    | Some (status, sh) \<Rightarrow>
        status = 0 \<and> stderr_text sh = ''vsh: X: oops'' @ [CHR 0x0A] \<and>
        stdout_text sh = [CHR 0x0A])"
  by code_simp

subsection \<open>The order of redirections\<close>

text \<open>
  The words and redirections of a simple command, as they are written: an item is a WORD
  token, or the token of a redirection operator and the WORD token of its target.
  \<open>redirection_of\<close> is the redirection that \<^verbatim>\<open>parse_redirection\<close> makes of the two tokens.
\<close>

datatype Item = WordItem Token | RedirItem Token Token

fun item_tokens :: "Item \<Rightarrow> Token list" where
  "item_tokens (WordItem t) = [t]"
| "item_tokens (RedirItem opr target) = [opr, target]"

fun item_ok :: "Item \<Rightarrow> bool" where
  "item_ok (WordItem t) = (tk_type t = TOK_WORD)"
| "item_ok (RedirItem opr target) = (is_redir (tk_type opr) \<and> tk_type target = TOK_WORD)"

definition redirection_of :: "Token \<Rightarrow> Token \<Rightarrow> Redirection" where
  "redirection_of opr target =
     hd (redirs (fst (parse_redirection
           \<lparr>tokens = [opr, target], ppos = 0, perror = None, had_error = False\<rparr>
           \<lparr>argv = [], redirs = [], assignments = []\<rparr>)))"

fun source_redirs :: "Item list \<Rightarrow> Redirection list" where
  "source_redirs [] = []"
| "source_redirs (WordItem t # its) = source_redirs its"
| "source_redirs (RedirItem opr target # its) = redirection_of opr target # source_redirs its"

fun source_words :: "Item list \<Rightarrow> string option list" where
  "source_words [] = []"
| "source_words (WordItem t # its) = tk_value t # source_words its"
| "source_words (RedirItem opr target # its) = source_words its"

definition source_tokens :: "Item list \<Rightarrow> Token list" where
  "source_tokens its = concat (map item_tokens its)"

lemma parse_redirection_at:
  assumes "is_redir (tk_type opr)" and "tk_type target = TOK_WORD"
    and "tokens p = pre @ opr # target # rest" and "ppos p = length pre"
  shows "parse_redirection p cmd =
           (cmd\<lparr>redirs := redirection_of opr target # redirs cmd\<rparr>, p\<lparr>ppos := length pre + 2\<rparr>)"
  using assms
  by (auto simp: parse_redirection_def parse_redirection_target_def redirection_of_def
      expect_def check_def advance_def cur_token_def is_redir_def nth_append)

lemma parse_simple_cmd_loop_stop:
  assumes "tokens p = pre @ stop # rest" and "ppos p = length pre"
    and "tk_type stop \<noteq> TOK_WORD" and "\<not> is_redir (tk_type stop)"
  shows "parse_simple_cmd_loop p cmd = Some (cmd, p)"
  using assms
  by (subst parse_simple_cmd_loop.simps) (auto simp: cur_token_def nth_append)

lemma parse_simple_cmd_loop_items:
  assumes "list_all item_ok its"
    and "tokens p = pre @ source_tokens its @ stop # rest" and "ppos p = length pre"
    and "\<not> had_error p"
    and "tk_type stop \<noteq> TOK_WORD" and "\<not> is_redir (tk_type stop)"
  shows "parse_simple_cmd_loop p cmd =
           Some (cmd\<lparr>argv := argv cmd @ source_words its,
                     redirs := rev (source_redirs its) @ redirs cmd\<rparr>,
                 p\<lparr>ppos := length pre + length (source_tokens its)\<rparr>)"
  using assms
proof (induction its arbitrary: p cmd pre)
  case Nil
  then show ?case
    using parse_simple_cmd_loop_stop[of p pre stop rest cmd]
    by (simp add: source_tokens_def)
next
  case (Cons it its)
  show ?case
  proof (cases it)
    case (WordItem t)
    let ?p = "p\<lparr>ppos := length pre + 1\<rparr>"
    let ?cmd = "cmd\<lparr>argv := argv cmd @ [tk_value t]\<rparr>"
    have t: "tk_type t = TOK_WORD" and rest: "list_all item_ok its"
      using Cons.prems(1) WordItem by auto
    have cur: "cur_token p = t" and lt: "ppos p < length (tokens p)"
      using Cons.prems(2,3) WordItem by (auto simp: cur_token_def source_tokens_def nth_append)
    have step: "parse_simple_cmd_loop p cmd = parse_simple_cmd_loop ?p ?cmd"
      using Cons.prems(3,4) cur lt t
      by (subst parse_simple_cmd_loop.simps) (simp add: is_redir_def advance_def)
    have toks: "tokens ?p = (pre @ [t]) @ source_tokens its @ stop # rest"
      using Cons.prems(2) WordItem by (simp add: source_tokens_def)
    have ih: "parse_simple_cmd_loop ?p ?cmd =
        Some (?cmd\<lparr>argv := argv ?cmd @ source_words its,
                     redirs := rev (source_redirs its) @ redirs ?cmd\<rparr>,
              ?p\<lparr>ppos := length (pre @ [t]) + length (source_tokens its)\<rparr>)"
      using Cons.IH[OF rest toks _ _ Cons.prems(5,6), of ?cmd] Cons.prems(4) by simp
    show ?thesis
      using WordItem ih by (simp add: step source_tokens_def)
  next
    case (RedirItem opr target)
    let ?p = "p\<lparr>ppos := length pre + 2\<rparr>"
    let ?cmd = "cmd\<lparr>redirs := redirection_of opr target # redirs cmd\<rparr>"
    have o: "is_redir (tk_type opr)" and t: "tk_type target = TOK_WORD"
      and rest: "list_all item_ok its"
      using Cons.prems(1) RedirItem by auto
    have toks0: "tokens p = pre @ opr # target # (source_tokens its @ stop # rest)"
      using Cons.prems(2) RedirItem by (simp add: source_tokens_def)
    have cur: "cur_token p = opr"
      using toks0 Cons.prems(3) by (auto simp: cur_token_def nth_append)
    have pr: "parse_redirection p cmd = (?cmd, ?p)"
      using parse_redirection_at[OF o t toks0 Cons.prems(3), of cmd] by simp
    have step: "parse_simple_cmd_loop p cmd = parse_simple_cmd_loop ?p ?cmd"
      using Cons.prems(4) cur o pr
      by (subst parse_simple_cmd_loop.simps) simp
    have toks: "tokens ?p = (pre @ [opr, target]) @ source_tokens its @ stop # rest"
      using toks0 by simp
    have ih: "parse_simple_cmd_loop ?p ?cmd =
        Some (?cmd\<lparr>argv := argv ?cmd @ source_words its,
                     redirs := rev (source_redirs its) @ redirs ?cmd\<rparr>,
              ?p\<lparr>ppos := length (pre @ [opr, target]) + length (source_tokens its)\<rparr>)"
      using Cons.IH[OF rest toks _ _ Cons.prems(5,6), of ?cmd] Cons.prems(4) by simp
    show ?thesis
      using RedirItem ih by (simp add: step source_tokens_def)
  qed
qed

lemma executor_apply_redirections_snoc:
  "executor_apply_redirections w (rev (rs @ [r])) pr =
     (case apply_redirection w pr r of
        (applied, pr1) \<Rightarrow>
          if applied then executor_apply_redirections w (rev rs) pr1 else (- 1, pr1))"
  by simp

text \<open>
  Claim C1, as the code has it.  Take a simple command: one or more items, followed by
  a token that is neither a WORD nor a redirection operator.  \<^verbatim>\<open>parse_simple_cmd\<close> returns
  a command whose \<^verbatim>\<open>argv\<close> holds the words in the order of the line and whose redirection
  chain holds the redirections in the reverse order: \<^verbatim>\<open>parse_redirection\<close> puts each new
  one at the head.  \<^verbatim>\<open>executor_apply_redirections\<close> walks the chain from its head, so the
  redirection written last is applied first, then the ones before it, from right to left;
  it stops at the first that fails.
\<close>

theorem redirections_stored_and_applied_in_reverse_order:
  assumes "list_all item_ok its" and "its \<noteq> []"
    and "tokens p = pre @ source_tokens its @ stop # rest" and "ppos p = length pre"
    and "\<not> had_error p"
    and "tk_type stop \<noteq> TOK_WORD" and "\<not> is_redir (tk_type stop)"
  shows "parse_simple_cmd p =
           Some (Some (NODE_COMMAND \<lparr>argv = source_words its,
                                     redirs = rev (source_redirs its),
                                     assignments = []\<rparr>),
                 p\<lparr>ppos := length pre + length (source_tokens its)\<rparr>)
         \<and> (\<forall>w pr rs r. source_redirs its = rs @ [r] \<longrightarrow>
               executor_apply_redirections w (rev (source_redirs its)) pr =
                 (case apply_redirection w pr r of
                    (applied, pr1) \<Rightarrow>
                      if applied then executor_apply_redirections w (rev rs) pr1
                      else (- 1, pr1)))"
proof -
  have ne: "source_words its \<noteq> [] \<or> source_redirs its \<noteq> []"
    using assms(2) by (cases its; cases "hd its") auto
  have "parse_simple_cmd p =
           Some (Some (NODE_COMMAND \<lparr>argv = source_words its,
                                     redirs = rev (source_redirs its),
                                     assignments = []\<rparr>),
                 p\<lparr>ppos := length pre + length (source_tokens its)\<rparr>)"
    using parse_simple_cmd_loop_items[OF assms(1,3-7),
        of "\<lparr>argv = [], redirs = [], assignments = []\<rparr>"] ne
    by (auto simp: parse_simple_cmd_def)
  then show ?thesis
    using executor_apply_redirections_snoc by simp
qed

theorem redirections_stored_and_applied_in_reverse_order_witness:
  "parse_simple_cmd
     (parser_init
        [make_token TOK_WORD (Some ''cmd'') 1 1,
         make_token TOK_REDIR_OUT (Some ''>'') 1 5, make_token TOK_WORD (Some ''a'') 1 7,
         make_token TOK_REDIR_OUT (Some ''>'') 1 9, make_token TOK_WORD (Some ''b'') 1 11,
         make_token TOK_EOF None 1 12]) =
   Some (Some (NODE_COMMAND
           \<lparr>argv = [Some ''cmd''],
            redirs = [\<lparr>rd_type = REDIR_OUTPUT, rd_fd = 1, rd_target = Some ''b''\<rparr>,
                      \<lparr>rd_type = REDIR_OUTPUT, rd_fd = 1, rd_target = Some ''a''\<rparr>],
            assignments = []\<rparr>),
         \<lparr>tokens =
            [make_token TOK_WORD (Some ''cmd'') 1 1,
             make_token TOK_REDIR_OUT (Some ''>'') 1 5, make_token TOK_WORD (Some ''a'') 1 7,
             make_token TOK_REDIR_OUT (Some ''>'') 1 9, make_token TOK_WORD (Some ''b'') 1 11,
             make_token TOK_EOF None 1 12],
          ppos = 5, perror = None, had_error = False\<rparr>)"
  using redirections_stored_and_applied_in_reverse_order[of
      "[WordItem (make_token TOK_WORD (Some ''cmd'') 1 1),
        RedirItem (make_token TOK_REDIR_OUT (Some ''>'') 1 5)
                  (make_token TOK_WORD (Some ''a'') 1 7),
        RedirItem (make_token TOK_REDIR_OUT (Some ''>'') 1 9)
                  (make_token TOK_WORD (Some ''b'') 1 11)]"
      "parser_init
        [make_token TOK_WORD (Some ''cmd'') 1 1,
         make_token TOK_REDIR_OUT (Some ''>'') 1 5, make_token TOK_WORD (Some ''a'') 1 7,
         make_token TOK_REDIR_OUT (Some ''>'') 1 9, make_token TOK_WORD (Some ''b'') 1 11,
         make_token TOK_EOF None 1 12]"
      "[]" "make_token TOK_EOF None 1 12" "[]"]
  by (simp add: parser_init_def source_tokens_def redirection_of_def parse_redirection_def
      parse_redirection_target_def expect_def check_def advance_def cur_token_def
      make_token_def is_redir_def)

text \<open>
  The claim as stated fails on the line \<^verbatim>\<open>cmd > a > b\<close>.  The chain is \<^verbatim>\<open>> b\<close>, \<^verbatim>\<open>> a\<close>,
  not the order of appearance.  Walked from its head it opens \<^verbatim>\<open>b\<close> first and \<^verbatim>\<open>a\<close> last,
  so descriptor 1 ends on \<^verbatim>\<open>a\<close>; applied in the order of appearance (the chain reversed)
  it would end on \<^verbatim>\<open>b\<close>.
\<close>

theorem redirections_order_of_appearance_counterexample:
  "(case parser_parse 23 (parser_init (fst (lexer_tokenize (lexer_init (Some ''cmd > a > b''))))) of
      Some (Some (NODE_COMMAND cmd), p) \<Rightarrow>
        map rd_target (redirs cmd) = [Some ''b'', Some ''a''] \<and>
        fd_entry (snd (executor_apply_redirections test_world (redirs cmd) test_process)) 1 =
          Some (''a'', O_WRONLY_CREAT_TRUNC) \<and>
        fd_entry (snd (executor_apply_redirections test_world (rev (redirs cmd)) test_process)) 1 =
          Some (''b'', O_WRONLY_CREAT_TRUNC)
    | _ \<Rightarrow> False)"
  by code_simp

end
